theory Spec2Isabelle
  imports Complex_Main "HOL-Library.Code_Target_Nat"
begin

section \<open>Machine sizes and the buffer\<close>

text \<open>
  Offsets into the FASTA buffer are \<open>size_t\<close> values (64 bits, unsigned). They are
  natural numbers here, with the wrap-around written out where the source adds or
  subtracts. \<open>npos\<close> is \<open>std::string::npos\<close>, the all-ones value that
  \<open>find_first_of\<close> returns when nothing is found.
\<close>

definition npos :: nat where
  "npos = 2 ^ 64 - 1"

definition size_add :: "nat \<Rightarrow> nat \<Rightarrow> nat" where
  "size_add a b = (a + b) mod 2 ^ 64"

definition size_sub :: "nat \<Rightarrow> nat \<Rightarrow> nat" where
  "size_sub a b = (a + (2 ^ 64 - b mod 2 ^ 64)) mod 2 ^ 64"

fun index_of :: "char \<Rightarrow> string \<Rightarrow> nat option" where
  "index_of c [] = None"
| "index_of c (x # xs) = (if x = c then Some 0 else map_option Suc (index_of c xs))"

text \<open>
  \<open>std::string::find_first_of(c, pos)\<close>: the least index at or after \<open>pos\<close> that
  holds \<open>c\<close>, and \<open>npos\<close> when there is none (also when \<open>pos\<close> is past the end).
\<close>

definition find_first_of :: "string \<Rightarrow> char \<Rightarrow> nat \<Rightarrow> nat" where
  "find_first_of s c pos =
     (case index_of c (drop pos s) of None \<Rightarrow> npos | Some k \<Rightarrow> pos + k)"

section \<open>Matrices, matches and the scorer's state\<close>

text \<open>
  What ends a run early: the exception of \<open>get_file_contents\<close>, a read outside the
  buffer, the failed \<open>assert\<close>, and a write that leaves the stringstream in a failed
  state.
\<close>

datatype error = runtime_error | OutOfBounds | AssertionFailed | StreamFailed

text \<open>
  \<open>ScoreMatrix\<close> is declared outside the two source files; the scorer uses its
  accessors only. \<open>matrix_size\<close> is \<open>matrix().size()\<close>, the window width, and
  \<open>detail_score m fasta b e\<close> is \<open>detail::score(matrix.matrix(), fasta, b, e)\<close>, the
  scaled score of the window \<open>[b, e)\<close>. The entries of \<open>pvalues\<close> are finite
  doubles, denoted by their rational values; comparing two of them compares these.
\<close>

record ScoreMatrix =
  name :: string
  matrix_size :: nat
  pvalues :: "rat list"
  is_reverse_complement :: bool
  detail_score :: "string \<Rightarrow> nat \<Rightarrow> nat \<Rightarrow> nat"

text \<open>
  One output line, field by field in the order the source streams them. The line
  prints the unscaled score, a floating-point function of the scaled score and the
  matrix; the record keeps the scaled score it is computed from.
\<close>

record Match =
  pattern_name :: string
  sequence_name :: string
  sequence_start :: nat
  sequence_stop :: nat
  strand :: char
  scaled :: nat
  pvalue :: rat
  matched_sequence :: string

text \<open>
  The mutable part of a \<open>Scorer\<close>: the lines in its stringstream \<open>ss\<close>, and a log
  of the calls of \<open>detail::score\<close> it has made, in the order made: \<open>scored\<close> holds
  the arguments of each call (header position of the record, matrix name, window
  begin, window end) and \<open>results\<close> the scaled score each call returned.
\<close>

record Scorer =
  ss :: "Match list"
  scored :: "(nat \<times> string \<times> nat \<times> nat) list"
  results :: "nat list"

section \<open>Rendering one match\<close>

text \<open>
  Modelled from the spec: \<open>complement\<close> is declared outside the two source files.
  The spec fixes it on the four bases (A and T swap, C and G swap) and leaves every
  other byte open; \<open>other\<close> stands for what it does there.
\<close>

definition complement :: "(char \<Rightarrow> char) \<Rightarrow> char \<Rightarrow> char" where
  "complement other c =
     (if c = CHR ''A'' then CHR ''T''
      else if c = CHR ''T'' then CHR ''A''
      else if c = CHR ''C'' then CHR ''G''
      else if c = CHR ''G'' then CHR ''C''
      else other c)"

text \<open>
  The loop \<open>for (size_t i = begin + size - 1; ; --i)\<close>: it streams the complement of
  \<open>fasta[i]\<close> and stops after \<open>i == begin\<close>. A read at or past the end of the buffer
  is the error \<open>OutOfBounds\<close>; \<open>--i\<close> at 0 wraps to \<open>npos\<close>, an index no buffer has.
\<close>

fun reverse_complement_from :: "(char \<Rightarrow> char) \<Rightarrow> string \<Rightarrow> nat \<Rightarrow> nat \<Rightarrow> error + string" where
  "reverse_complement_from other fasta begin i =
     (if length fasta \<le> i then Inl OutOfBounds
      else if i = begin then Inr [complement other (fasta ! i)]
      else (case i of
              0 \<Rightarrow> Inl OutOfBounds
            | Suc j \<Rightarrow>
                (case reverse_complement_from other fasta begin j of
                   Inl e \<Rightarrow> Inl e
                 | Inr rest \<Rightarrow> Inr (complement other (fasta ! i) # rest))))"

text \<open>
  \<open>ss.write(fasta.data() + pos, n)\<close>: the \<open>n\<close> bytes from \<open>pos\<close> on. The length is
  passed as a signed \<open>std::streamsize\<close>: a \<open>size_t\<close> of \<open>2^63\<close> or more arrives
  negative, the stream writes nothing and sets its \<open>badbit\<close>, and drops whatever is
  streamed into it afterwards. This happens to the name of a header line without a
  line break, where \<open>name_end\<close> is \<open>npos\<close>. The source goes on scanning with the
  failed stream; the model does not follow it there and ends the scan with
  \<open>StreamFailed\<close>.
\<close>

definition write_bytes :: "string \<Rightarrow> nat \<Rightarrow> nat \<Rightarrow> error + string" where
  "write_bytes fasta pos n =
     (if pos + n \<le> length fasta then Inr (take n (drop pos fasta))
      else if 2 ^ 63 \<le> n then Inl StreamFailed
      else Inl OutOfBounds)"

definition render_sequence :: "(char \<Rightarrow> char) \<Rightarrow> string \<Rightarrow> ScoreMatrix \<Rightarrow> nat \<Rightarrow> error + string" where
  "render_sequence other fasta m begin =
     (if is_reverse_complement m
      then reverse_complement_from other fasta begin
             (size_sub (size_add begin (matrix_size m)) 1)
      else write_bytes fasta begin (matrix_size m))"

text \<open>
  The body of \<open>if (pvalue < 0.001)\<close>: the line for the window \<open>[begin, end)\<close> of the
  record with name span \<open>[name_begin, name_end)\<close> and sequence start
  \<open>sequence_begin\<close>.
\<close>

definition format_match ::
  "(char \<Rightarrow> char) \<Rightarrow> string \<Rightarrow> ScoreMatrix \<Rightarrow> nat \<Rightarrow> nat \<Rightarrow> nat \<Rightarrow> nat \<Rightarrow> nat \<Rightarrow> nat \<Rightarrow> rat
     \<Rightarrow> error + Match" where
  "format_match other fasta m name_begin name_end sequence_begin begin end scaled_score p =
     (let name_length = size_sub name_end name_begin;
          start = size_add (size_sub begin sequence_begin) 1;
          stop = size_sub end sequence_begin
      in case write_bytes fasta name_begin name_length of
           Inl e \<Rightarrow> Inl e
         | Inr nm \<Rightarrow>
             (case render_sequence other fasta m begin of
                Inl e \<Rightarrow> Inl e
              | Inr sq \<Rightarrow>
                  Inr \<lparr>pattern_name = name m, sequence_name = nm,
                       sequence_start = start, sequence_stop = stop,
                       strand = (if is_reverse_complement m then CHR ''-'' else CHR ''+''),
                       scaled = scaled_score, pvalue = p, matched_sequence = sq\<rparr>))"

section \<open>The scan of one region\<close>

text \<open>
  A window is inside the buffer when it ends at or before the buffer's end. A
  \<open>std::string\<close> holds fewer than \<open>npos\<close> bytes, so a window that ends at \<open>npos\<close>
  is inside none.
\<close>

definition inside :: "string \<Rightarrow> nat \<Rightarrow> nat \<Rightarrow> bool" where
  "inside fasta begin end \<longleftrightarrow> begin \<le> end \<and> end \<le> length fasta \<and> end < npos"

text \<open>
  The inner loop
  \<open>for (begin = sequence_begin, end = sequence_begin + size; end <= sequence_end; ++begin, ++end)\<close>
  from the state \<open>(begin, end)\<close> on. Scoring a window that is not inside the buffer
  is the error \<open>OutOfBounds\<close>; a scaled score that is no index of the p-value table
  fails the source's \<open>assert\<close>.
\<close>

function score_windows ::
  "(char \<Rightarrow> char) \<Rightarrow> string \<Rightarrow> ScoreMatrix \<Rightarrow> nat \<Rightarrow> nat \<Rightarrow> nat \<Rightarrow> nat \<Rightarrow> nat \<Rightarrow> nat
     \<Rightarrow> Scorer \<Rightarrow> error + Scorer" where
  "score_windows other fasta m name_begin name_end sequence_begin sequence_end begin end st =
     (if end \<le> sequence_end then
        if \<not> inside fasta begin end then Inl OutOfBounds
        else
          let scaled_score = detail_score m fasta begin end;
              st1 = st\<lparr>scored := scored st @ [(name_begin - 1, name m, begin, end)],
                      results := results st @ [scaled_score]\<rparr>
          in if \<not> scaled_score < length (pvalues m) then Inl AssertionFailed
             else
               let p = pvalues m ! scaled_score
               in if p < 1 / 1000 then
                    (case format_match other fasta m name_begin name_end sequence_begin
                            begin end scaled_score p of
                       Inl e \<Rightarrow> Inl e
                     | Inr line \<Rightarrow>
                         score_windows other fasta m name_begin name_end sequence_begin
                           sequence_end (size_add begin 1) (size_add end 1)
                           (st1\<lparr>ss := ss st1 @ [line]\<rparr>))
                  else
                    score_windows other fasta m name_begin name_end sequence_begin
                      sequence_end (size_add begin 1) (size_add end 1) st1
      else Inr st)"
  by pat_completeness auto
termination
proof (relation "measure (\<lambda>(other, fasta, m, nb, ne, sb, se, b, e, st). npos - e)")
  show "wf (measure (\<lambda>(other, fasta, m, nb, ne, sb, se, b, e, st). npos - e))"
    by simp
qed (auto simp: inside_def size_add_def npos_def)

text \<open>The loop \<open>for (const auto& matrix : matrices)\<close> over one record.\<close>

fun score_matrices ::
  "(char \<Rightarrow> char) \<Rightarrow> string \<Rightarrow> ScoreMatrix list \<Rightarrow> nat \<Rightarrow> nat \<Rightarrow> nat \<Rightarrow> nat
     \<Rightarrow> Scorer \<Rightarrow> error + Scorer" where
  "score_matrices other fasta [] name_begin name_end sequence_begin sequence_end st = Inr st"
| "score_matrices other fasta (m # ms) name_begin name_end sequence_begin sequence_end st =
     (case score_windows other fasta m name_begin name_end sequence_begin sequence_end
             sequence_begin (size_add sequence_begin (matrix_size m)) st of
        Inl e \<Rightarrow> Inl e
      | Inr st' \<Rightarrow>
          score_matrices other fasta ms name_begin name_end sequence_begin sequence_end st')"

text \<open>
  What \<open>Scorer::score\<close> computes from the position \<open>found\<close> of a \<open>>\<close> byte: the
  name span \<open>[name_begin, name_end)\<close> and the sequence span
  \<open>[sequence_begin, sequence_end)\<close>, returned in this order. Both searches for the
  line break start one byte after the span's first byte, as in the source, and
  \<open>npos + 1\<close> wraps to 0.
\<close>

definition locate :: "string \<Rightarrow> nat \<Rightarrow> nat \<times> nat \<times> nat \<times> nat" where
  "locate fasta found =
     (let name_begin = size_add found 1;
          name_end = find_first_of fasta (CHR 0x0A) (size_add name_begin 1);
          sequence_begin = size_add name_end 1;
          sequence_end = find_first_of fasta (CHR 0x0A) (size_add sequence_begin 1)
      in (name_begin, name_end, sequence_begin, sequence_end))"

text \<open>
  \<open>Scorer::score(region_begin, region_end)\<close>, the \<open>while (true)\<close> loop. The loop
  need not end, so the result is an option: \<open>None\<close> is the scan that never returns,
  \<open>Some (Inl e)\<close> the scan that leaves the buffer, fails the assertion or fails a
  write, and \<open>Some (Inr st)\<close> the scan that returns with the scorer in state \<open>st\<close>.
\<close>

partial_function (option) score ::
  "(char \<Rightarrow> char) \<Rightarrow> string \<Rightarrow> ScoreMatrix list \<Rightarrow> nat \<Rightarrow> nat \<Rightarrow> Scorer
     \<Rightarrow> (error + Scorer) option" where
  "score other fasta matrices region_begin region_end st =
     (let found = find_first_of fasta (CHR ''>'') region_begin
      in if found \<ge> region_end then Some (Inr st)
         else
           (case locate fasta found of
              (name_begin, name_end, sequence_begin, sequence_end) \<Rightarrow>
                (case score_matrices other fasta matrices name_begin name_end
                        sequence_begin sequence_end st of
                   Inl e \<Rightarrow> Some (Inl e)
                 | Inr st' \<Rightarrow>
                     score other fasta matrices (size_add sequence_end 1) region_end st')))"

declare score.simps [code]
declare score_windows.simps [simp del]
declare reverse_complement_from.simps [simp del]

section \<open>The parallel path\<close>

text \<open>
  The files the program can open: \<open>readable\<close> gives the content of a path that
  \<open>std::ifstream\<close> opens, \<open>writable\<close> tells whether \<open>std::ofstream\<close> opens a path.
\<close>

record filesystem =
  readable :: "string \<Rightarrow> string option"
  writable :: "string \<Rightarrow> bool"

definition get_file_contents :: "filesystem \<Rightarrow> string \<Rightarrow> error + string" where
  "get_file_contents fs file_path =
     (case readable fs file_path of
        None \<Rightarrow> Inl runtime_error
      | Some contents \<Rightarrow> Inr contents)"

text \<open>
  One worker thread: its thread-local \<open>Scorer\<close> scores, one after the other, the
  ranges that \<open>score_fasta\<close> receives on this thread.
\<close>

fun run_worker ::
  "(char \<Rightarrow> char) \<Rightarrow> string \<Rightarrow> ScoreMatrix list \<Rightarrow> (nat \<times> nat) list \<Rightarrow> Scorer
     \<Rightarrow> (error + Scorer) option" where
  "run_worker other fasta matrices [] st = Some (Inr st)"
| "run_worker other fasta matrices ((region_begin, region_end) # rest) st =
     (case score other fasta matrices region_begin region_end st of
        None \<Rightarrow> None
      | Some (Inl e) \<Rightarrow> Some (Inl e)
      | Some (Inr st') \<Rightarrow> run_worker other fasta matrices rest st')"

fun run_workers ::
  "(char \<Rightarrow> char) \<Rightarrow> string \<Rightarrow> ScoreMatrix list \<Rightarrow> (nat \<times> nat) list list
     \<Rightarrow> (error + Scorer list) option" where
  "run_workers other fasta matrices [] = Some (Inr [])"
| "run_workers other fasta matrices (w # ws) =
     (case run_worker other fasta matrices w \<lparr>ss = [], scored = [], results = []\<rparr> of
        None \<Rightarrow> None
      | Some (Inl e) \<Rightarrow> Some (Inl e)
      | Some (Inr st) \<Rightarrow>
          (case run_workers other fasta matrices ws of
             None \<Rightarrow> None
           | Some (Inl e) \<Rightarrow> Some (Inl e)
           | Some (Inr sts) \<Rightarrow> Some (Inr (st # sts))))"

text \<open>
  What a run of \<open>process_fasta\<close> leaves behind: the match lines in the output file
  (after the header line), or \<open>None\<close> when the output stream was never open, and
  the scoring calls the workers made.
\<close>

record outcome =
  written :: "Match list option"
  work :: "(nat \<times> string \<times> nat \<times> nat) list"

text \<open>
  \<open>process_fasta\<close>. The \<open>schedule\<close> stands for the choices of
  \<open>tbb::parallel_for\<close>: one list of ranges per worker thread, in the order the
  thread receives them, the threads in the order their scorers are destroyed and
  drain their lines to the output. The output stream is opened without a test; an
  unopened stream ignores what is written to it.
\<close>

definition process_fasta ::
  "filesystem \<Rightarrow> (char \<Rightarrow> char) \<Rightarrow> ScoreMatrix list \<Rightarrow> string \<Rightarrow> string
     \<Rightarrow> (nat \<times> nat) list list \<Rightarrow> (error + outcome) option" where
  "process_fasta fs other matrices fasta_file_path output_file_path schedule =
     (case get_file_contents fs fasta_file_path of
        Inl e \<Rightarrow> Some (Inl e)
      | Inr fasta \<Rightarrow>
          (case run_workers other fasta matrices schedule of
             None \<Rightarrow> None
           | Some (Inl e) \<Rightarrow> Some (Inl e)
           | Some (Inr sts) \<Rightarrow>
               Some (Inr \<lparr>written = (if writable fs output_file_path
                                       then Some (concat (map ss sts)) else None),
                          work = concat (map scored sts)\<rparr>)))"

text \<open>
  The range handed to \<open>tbb::parallel_for\<close> is
  \<open>tbb::blocked_range<int>(0, fasta.size(), grainsize)\<close>: its bounds are 32-bit
  \<open>int\<close>s, so the buffer's \<open>size_t\<close> length is converted, keeping the low 32 bits
  read as two's complement.
\<close>

definition int_of_size :: "nat \<Rightarrow> int" where
  "int_of_size n =
     (let r = int (n mod 2 ^ 32) in if r < 2 ^ 31 then r else r - 2 ^ 32)"

definition grainsize :: nat where
  "grainsize = 8400"

record blocked_range =
  my_begin :: int
  my_end :: int
  my_grainsize :: nat

definition fasta_range :: "string \<Rightarrow> blocked_range" where
  "fasta_range fasta =
     \<lparr>my_begin = 0, my_end = int_of_size (length fasta), my_grainsize = grainsize\<rparr>"

section \<open>What a scan is expected to produce\<close>

text \<open>
  The definitions of this section are not translations of source functions: they
  state, in the words of the design, what the loops above are compared with.
  \<open>window_starts\<close> lists the start positions at which a window of width \<open>w\<close> fits
  entirely inside the sequence span \<open>[sequence_begin, sequence_end)\<close>.
\<close>

definition window_starts :: "nat \<Rightarrow> nat \<Rightarrow> nat \<Rightarrow> nat list" where
  "window_starts sequence_begin sequence_end w = [sequence_begin ..< Suc sequence_end - w]"

definition window_pvalue :: "string \<Rightarrow> ScoreMatrix \<Rightarrow> nat \<Rightarrow> rat" where
  "window_pvalue fasta m b = pvalues m ! detail_score m fasta b (b + matrix_size m)"

definition window_bytes :: "string \<Rightarrow> ScoreMatrix \<Rightarrow> nat \<Rightarrow> string" where
  "window_bytes fasta m b = take (matrix_size m) (drop b fasta)"

definition window_line ::
  "(char \<Rightarrow> char) \<Rightarrow> string \<Rightarrow> ScoreMatrix \<Rightarrow> nat \<Rightarrow> nat \<Rightarrow> nat \<Rightarrow> nat \<Rightarrow> Match" where
  "window_line other fasta m name_begin name_end sequence_begin b =
     \<lparr>pattern_name = name m,
      sequence_name = take (name_end - name_begin) (drop name_begin fasta),
      sequence_start = b - sequence_begin + 1,
      sequence_stop = b + matrix_size m - sequence_begin,
      strand = (if is_reverse_complement m then CHR ''-'' else CHR ''+''),
      scaled = detail_score m fasta b (b + matrix_size m),
      pvalue = window_pvalue fasta m b,
      matched_sequence =
        (if is_reverse_complement m
         then map (complement other) (rev (window_bytes fasta m b))
         else window_bytes fasta m b)\<rparr>"

text \<open>The lines and the scoring calls of one matrix over one record.\<close>

definition matrix_lines ::
  "(char \<Rightarrow> char) \<Rightarrow> string \<Rightarrow> ScoreMatrix \<Rightarrow> nat \<Rightarrow> nat \<Rightarrow> nat \<Rightarrow> nat \<Rightarrow> Match list" where
  "matrix_lines other fasta m name_begin name_end sequence_begin sequence_end =
     map (window_line other fasta m name_begin name_end sequence_begin)
       (filter (\<lambda>b. window_pvalue fasta m b < 1 / 1000)
          (window_starts sequence_begin sequence_end (matrix_size m)))"

definition matrix_calls :: "ScoreMatrix \<Rightarrow> nat \<Rightarrow> nat \<Rightarrow> nat \<Rightarrow> (nat \<times> string \<times> nat \<times> nat) list" where
  "matrix_calls m name_begin sequence_begin sequence_end =
     map (\<lambda>b. (name_begin - 1, name m, b, b + matrix_size m))
       (window_starts sequence_begin sequence_end (matrix_size m))"

definition matrix_results :: "string \<Rightarrow> ScoreMatrix \<Rightarrow> nat \<Rightarrow> nat \<Rightarrow> nat list" where
  "matrix_results fasta m sequence_begin sequence_end =
     map (\<lambda>b. detail_score m fasta b (b + matrix_size m))
       (window_starts sequence_begin sequence_end (matrix_size m))"

text \<open>
  The matrix-side invariant of the design: every scaled score is an index of the
  matrix's p-value table. A reverse-complement matrix must have at least one column,
  since its rendering loop reads the window's last byte before it tests for the end,
  and the width added to an offset of the buffer must not wrap.
\<close>

definition matrix_ok :: "string \<Rightarrow> ScoreMatrix \<Rightarrow> bool" where
  "matrix_ok fasta m \<longleftrightarrow>
     (\<forall>b e. detail_score m fasta b e < length (pvalues m))
     \<and> (is_reverse_complement m \<longrightarrow> 0 < matrix_size m)
     \<and> length fasta + matrix_size m \<le> npos"

text \<open>The lines, the scoring calls and their results of one record: matrix by matrix.\<close>

definition record_lines ::
  "(char \<Rightarrow> char) \<Rightarrow> string \<Rightarrow> ScoreMatrix list \<Rightarrow> nat \<Rightarrow> nat \<Rightarrow> nat \<Rightarrow> nat \<Rightarrow> Match list" where
  "record_lines other fasta ms name_begin name_end sequence_begin sequence_end =
     concat (map (\<lambda>m. matrix_lines other fasta m name_begin name_end
                         sequence_begin sequence_end) ms)"

definition record_calls ::
  "ScoreMatrix list \<Rightarrow> nat \<Rightarrow> nat \<Rightarrow> nat \<Rightarrow> (nat \<times> string \<times> nat \<times> nat) list" where
  "record_calls ms name_begin sequence_begin sequence_end =
     concat (map (\<lambda>m. matrix_calls m name_begin sequence_begin sequence_end) ms)"

definition record_results :: "string \<Rightarrow> ScoreMatrix list \<Rightarrow> nat \<Rightarrow> nat \<Rightarrow> nat list" where
  "record_results fasta ms sequence_begin sequence_end =
     concat (map (\<lambda>m. matrix_results fasta m sequence_begin sequence_end) ms)"

text \<open>The positions of the \<open>>\<close> bytes in \<open>[b, e)\<close>, ascending.\<close>

definition headers :: "string \<Rightarrow> nat \<Rightarrow> nat \<Rightarrow> nat list" where
  "headers fasta b e = filter (\<lambda>h. fasta ! h = CHR ''>'') [b ..< e]"

text \<open>
  The spans of the record with header marker at \<open>h\<close>, as the design describes them:
  the name runs from the byte after the marker to the next line break, the sequence
  from the byte after that line break to the next line break. Returned as
  (name begin, name end, sequence begin, sequence end); an end is \<open>npos\<close> when the
  line break does not exist.
\<close>

definition record_spans :: "string \<Rightarrow> nat \<Rightarrow> nat \<times> nat \<times> nat \<times> nat" where
  "record_spans fasta h =
     (let name_end = find_first_of fasta (CHR 0x0A) (Suc h);
          sequence_end = find_first_of fasta (CHR 0x0A) (Suc name_end)
      in (Suc h, name_end, Suc name_end, sequence_end))"

text \<open>
  A record is regular when its name and its sequence line are both non-empty and
  both end in a line break, and no other \<open>>\<close> byte lies between its marker and the
  sequence's line break. A buffer is regular when it has fewer than \<open>npos\<close> bytes
  and each of its \<open>>\<close> bytes is the marker of a regular record.
\<close>

definition regular_record :: "string \<Rightarrow> nat \<Rightarrow> bool" where
  "regular_record fasta h \<longleftrightarrow>
     (case record_spans fasta h of
        (name_begin, name_end, sequence_begin, sequence_end) \<Rightarrow>
          if name_end = npos \<or> sequence_end = npos then False
          else name_begin < name_end \<and> sequence_begin < sequence_end
               \<and> headers fasta (Suc h) (Suc sequence_end) = [])"

definition regular_fasta :: "string \<Rightarrow> bool" where
  "regular_fasta fasta \<longleftrightarrow>
     length fasta < npos
     \<and> (\<forall>h \<in> set (headers fasta 0 (length fasta)). regular_record fasta h)"

text \<open>
  What processing the record at \<open>h\<close> entirely means: for each matrix in list order,
  every window that fits inside the record's sequence span is scored, and a line is
  emitted for each window below the threshold.
\<close>

definition spans_lines :: "(char \<Rightarrow> char) \<Rightarrow> string \<Rightarrow> ScoreMatrix list \<Rightarrow> nat \<Rightarrow> Match list" where
  "spans_lines other fasta ms h =
     (case record_spans fasta h of
        (name_begin, name_end, sequence_begin, sequence_end) \<Rightarrow>
          record_lines other fasta ms name_begin name_end sequence_begin sequence_end)"

definition spans_calls :: "string \<Rightarrow> ScoreMatrix list \<Rightarrow> nat \<Rightarrow> (nat \<times> string \<times> nat \<times> nat) list" where
  "spans_calls fasta ms h =
     (case record_spans fasta h of
        (name_begin, name_end, sequence_begin, sequence_end) \<Rightarrow>
          record_calls ms name_begin sequence_begin sequence_end)"

definition spans_results :: "string \<Rightarrow> ScoreMatrix list \<Rightarrow> nat \<Rightarrow> nat list" where
  "spans_results fasta ms h =
     (case record_spans fasta h of
        (name_begin, name_end, sequence_begin, sequence_end) \<Rightarrow>
          record_results fasta ms sequence_begin sequence_end)"

text \<open>
  The state in which the worker of the region \<open>[b, e)\<close> ends, starting from an
  empty scorer, when it processes entirely the records whose marker lies in the
  region, in ascending order, and nothing else.
\<close>

definition expected_scan ::
  "(char \<Rightarrow> char) \<Rightarrow> string \<Rightarrow> ScoreMatrix list \<Rightarrow> nat \<Rightarrow> nat \<Rightarrow> Scorer" where
  "expected_scan other fasta ms b e =
     \<lparr>ss = concat (map (spans_lines other fasta ms) (headers fasta b e)),
      scored = concat (map (spans_calls fasta ms) (headers fasta b e)),
      results = concat (map (spans_results fasta ms) (headers fasta b e))\<rparr>"

text \<open>
  The window of a scoring call lies inside the sequence span of the record at \<open>p\<close>.
\<close>

definition window_in_record :: "string \<Rightarrow> nat \<Rightarrow> nat \<times> string \<times> nat \<times> nat \<Rightarrow> bool" where
  "window_in_record fasta p c \<longleftrightarrow>
     (case record_spans fasta p of
        (name_begin, name_end, sequence_begin, sequence_end) \<Rightarrow>
          (case c of (h, nm, b, e) \<Rightarrow> sequence_begin \<le> b \<and> e \<le> sequence_end))"

section \<open>The records a scan visits\<close>

text \<open>
  The control of the \<open>while (true)\<close> loop of \<open>Scorer::score\<close> alone: \<open>scans fasta b e hs\<close>
  holds when the scan of the region \<open>[b, e)\<close> from the cursor \<open>b\<close> returns after
  visiting the markers \<open>hs\<close>, in this order.
\<close>

inductive scans :: "string \<Rightarrow> nat \<Rightarrow> nat \<Rightarrow> nat list \<Rightarrow> bool" where
  scans_done: "region_end \<le> find_first_of fasta (CHR ''>'') region_begin \<Longrightarrow>
     scans fasta region_begin region_end []"
| scans_step: "found = find_first_of fasta (CHR ''>'') region_begin \<Longrightarrow> found < region_end \<Longrightarrow>
     locate fasta found = (name_begin, name_end, sequence_begin, sequence_end) \<Longrightarrow>
     scans fasta (size_add sequence_end 1) region_end hs \<Longrightarrow>
     scans fasta region_begin region_end (found # hs)"

code_pred scans .

text \<open>
  The lines of the record that the scan locates at \<open>h\<close>: matrix by matrix, and for
  each matrix window by window.
\<close>

definition located_lines :: "(char \<Rightarrow> char) \<Rightarrow> string \<Rightarrow> ScoreMatrix list \<Rightarrow> nat \<Rightarrow> Match list" where
  "located_lines other fasta ms h =
     (case locate fasta h of
        (name_begin, name_end, sequence_begin, sequence_end) \<Rightarrow>
          record_lines other fasta ms name_begin name_end sequence_begin sequence_end)"

section \<open>Regions, workers and what they log\<close>

text \<open>
  The scoring calls and the lines of a worker that starts with an empty scorer and
  scans one region; \<open>None\<close> when the scan does not return a state.
\<close>

definition fresh :: Scorer where
  "fresh = \<lparr>ss = [], scored = [], results = []\<rparr>"

definition region_calls ::
  "(char \<Rightarrow> char) \<Rightarrow> string \<Rightarrow> ScoreMatrix list \<Rightarrow> nat \<Rightarrow> nat
     \<Rightarrow> (nat \<times> string \<times> nat \<times> nat) list option" where
  "region_calls other fasta ms b e =
     (case score other fasta ms b e fresh of
        Some (Inr st) \<Rightarrow> Some (scored st)
      | _ \<Rightarrow> None)"

definition region_lines ::
  "(char \<Rightarrow> char) \<Rightarrow> string \<Rightarrow> ScoreMatrix list \<Rightarrow> nat \<Rightarrow> nat \<Rightarrow> Match list option" where
  "region_lines other fasta ms b e =
     (case score other fasta ms b e fresh of
        Some (Inr st) \<Rightarrow> Some (ss st)
      | _ \<Rightarrow> None)"

text \<open>
  A partitioning of \<open>[a, n)\<close>: regions \<open>[b, e)\<close> listed in ascending order, each
  starting where the one before it ends.
\<close>

fun contiguous :: "nat \<Rightarrow> (nat \<times> nat) list \<Rightarrow> nat \<Rightarrow> bool" where
  "contiguous a [] n \<longleftrightarrow> a = n"
| "contiguous a ((b, e) # rs) n \<longleftrightarrow> b = a \<and> b \<le> e \<and> contiguous e rs n"

text \<open>
  Attribution as the design states it: the worker of each region, started with an
  empty scorer, returns, and it has then processed entirely the records whose \<open>>\<close>
  byte lies in its region and nothing else.
\<close>

definition owner_scores ::
  "(char \<Rightarrow> char) \<Rightarrow> string \<Rightarrow> ScoreMatrix list \<Rightarrow> (nat \<times> nat) list \<Rightarrow> bool" where
  "owner_scores other fasta ms regions \<longleftrightarrow>
     (\<forall>(b, e) \<in> set regions.
        score other fasta ms b e fresh = Some (Inr (expected_scan other fasta ms b e)))"

text \<open>
  The order of lines within one record as the design states it: by window position,
  and by matrix-list order among the matches at one window position.
\<close>

definition window_major_lines ::
  "(char \<Rightarrow> char) \<Rightarrow> string \<Rightarrow> ScoreMatrix list \<Rightarrow> nat \<Rightarrow> Match list" where
  "window_major_lines other fasta ms h =
     (case record_spans fasta h of
        (name_begin, name_end, sequence_begin, sequence_end) \<Rightarrow>
          concat (map (\<lambda>b.
              concat (map (\<lambda>m.
                  if b + matrix_size m \<le> sequence_end \<and> window_pvalue fasta m b < 1 / 1000
                  then [window_line other fasta m name_begin name_end sequence_begin b]
                  else []) ms))
            [sequence_begin ..< Suc sequence_end]))"

section \<open>Example inputs\<close>

text \<open>
  The end-to-end scenario of the design: the file \<open>>seq1\<close>, line break,
  \<open>ACGTACGT\<close>, line break, and one matrix of width 4 whose scaled score is 1 on the
  window \<open>ACGT\<close> (p-value 0.0001) and 0 elsewhere (p-value 1).
\<close>

definition seq1_fasta :: string where
  "seq1_fasta = ''>seq1'' @ [CHR 0x0A] @ ''ACGTACGT'' @ [CHR 0x0A]"

definition acgt_matrix :: ScoreMatrix where
  "acgt_matrix =
     \<lparr>name = ''acgt'', matrix_size = 4, pvalues = [1, 1 / 10000],
      is_reverse_complement = False,
      detail_score = (\<lambda>fasta b e. if take (e - b) (drop b fasta) = ''ACGT'' then 1 else 0)\<rparr>"

text \<open>The same file without the final line break.\<close>

definition unterminated_fasta :: string where
  "unterminated_fasta = ''>seq1'' @ [CHR 0x0A] @ ''ACGT''"

text \<open>
  A matrix of width 1 at the threshold: the window \<open>A\<close> has p-value 0.001 exactly,
  the window \<open>C\<close> has p-value 0.0009999, every other window has p-value 1.
\<close>

definition threshold_matrix :: ScoreMatrix where
  "threshold_matrix =
     \<lparr>name = ''edge'', matrix_size = 1, pvalues = [1 / 1000, 9999 / 10000000, 1],
      is_reverse_complement = False,
      detail_score = (\<lambda>fasta b e. if take (e - b) (drop b fasta) = ''A'' then 0
                                    else if take (e - b) (drop b fasta) = ''C'' then 1 else 2)\<rparr>"

definition ac_fasta :: string where
  "ac_fasta = ''>s'' @ [CHR 0x0A] @ ''AC'' @ [CHR 0x0A]"

text \<open>Two matrices of width 1 that match every window, the second on the reverse strand.\<close>

definition any_matrix :: "string \<Rightarrow> bool \<Rightarrow> ScoreMatrix" where
  "any_matrix nm rc =
     \<lparr>name = nm, matrix_size = 1, pvalues = [1 / 10000],
      is_reverse_complement = rc, detail_score = (\<lambda>fasta b e. 0)\<rparr>"

text \<open>A reverse-complement matrix of width 4 over the buffer \<open>AAGG\<close>.\<close>

definition aagg_matrix :: ScoreMatrix where
  "aagg_matrix =
     \<lparr>name = ''rc'', matrix_size = 4, pvalues = [1 / 10000],
      is_reverse_complement = True, detail_score = (\<lambda>fasta b e. 0)\<rparr>"

text \<open>A header line with a \<open>>\<close> byte inside the name.\<close>

definition nested_fasta :: string where
  "nested_fasta = ''>a>b'' @ [CHR 0x0A] @ ''AC'' @ [CHR 0x0A]"

text \<open>Two records; the first region of the partitioning below ends inside the first.\<close>

definition two_fasta :: string where
  "two_fasta = ''>a'' @ [CHR 0x0A] @ ''AC'' @ [CHR 0x0A] @ ''>b'' @ [CHR 0x0A] @ ''GT'' @ [CHR 0x0A]"

text \<open>A record with an empty name and a sequence of two lines.\<close>

definition nameless_fasta :: string where
  "nameless_fasta = ''>'' @ [CHR 0x0A] @ ''ACGT'' @ [CHR 0x0A] @ ''AC'' @ [CHR 0x0A]"

text \<open>A file system with one readable FASTA file and no writable path.\<close>

definition read_only_fs :: filesystem where
  "read_only_fs =
     \<lparr>readable = (\<lambda>p. if p = ''in.fa'' then Some seq1_fasta else None),
      writable = (\<lambda>p. False)\<rparr>"

section \<open>Sizes and searches\<close>

lemma size_add_small: "a + b < 2 ^ 64 \<Longrightarrow> size_add a b = a + b"
  by (simp add: size_add_def)

lemma size_sub_small: "b \<le> a \<Longrightarrow> a < 2 ^ 64 \<Longrightarrow> size_sub a b = a - b"
proof -
  assume h: "b \<le> a" "a < 2 ^ 64"
  then have b: "b mod 2 ^ 64 = b" by simp
  have "a + ((2::nat) ^ 64 - b) = (a - b) + 2 ^ 64" using h by simp
  then have "(a + ((2::nat) ^ 64 - b)) mod 2 ^ 64 = (a - b) mod 2 ^ 64"
    by (simp only: mod_add_self2)
  also have "\<dots> = a - b" using h by simp
  finally show ?thesis by (simp only: size_sub_def b)
qed

lemma index_of_None: "index_of c xs = None \<longleftrightarrow> c \<notin> set xs"
  by (induction xs) auto

lemma index_of_Some:
  "index_of c xs = Some k \<Longrightarrow> k < length xs \<and> xs ! k = c \<and> (\<forall>j<k. xs ! j \<noteq> c)"
proof (induction xs arbitrary: k)
  case Nil
  then show ?case by simp
next
  case (Cons x xs)
  show ?case
  proof (cases "x = c")
    case True
    with Cons.prems show ?thesis by simp
  next
    case False
    with Cons.prems obtain k' where k': "index_of c xs = Some k'" "k = Suc k'"
      by auto
    from Cons.IH [OF k'(1)] False k'(2) show ?thesis
      by (auto simp: nth_Cons split: nat.splits)
  qed
qed

lemma find_first_of_found:
  assumes "find_first_of s c pos \<noteq> npos" "length s < npos"
  shows "pos \<le> find_first_of s c pos \<and> find_first_of s c pos < length s
         \<and> s ! find_first_of s c pos = c
         \<and> (\<forall>j. pos \<le> j \<and> j < find_first_of s c pos \<longrightarrow> s ! j \<noteq> c)"
proof (cases "index_of c (drop pos s)")
  case None
  with assms show ?thesis by (simp add: find_first_of_def)
next
  case (Some k)
  from index_of_Some [OF Some]
  have k: "k < length s - pos" "drop pos s ! k = c" "\<forall>j<k. drop pos s ! j \<noteq> c"
    by auto
  have r: "find_first_of s c pos = pos + k" using Some by (simp add: find_first_of_def)
  have "\<forall>j. pos \<le> j \<and> j < pos + k \<longrightarrow> s ! j \<noteq> c"
  proof (intro allI impI)
    fix j assume j: "pos \<le> j \<and> j < pos + k"
    then have "j - pos < k" by arith
    with k(3) have "drop pos s ! (j - pos) \<noteq> c" by blast
    moreover have "pos + (j - pos) = j" using j by arith
    ultimately show "s ! j \<noteq> c" using k(1) j by (simp add: nth_drop)
  qed
  with k r show ?thesis by (auto simp: nth_drop)
qed

lemma find_first_of_none:
  assumes "find_first_of s c pos = npos" "length s < npos"
  shows "\<forall>j. pos \<le> j \<and> j < length s \<longrightarrow> s ! j \<noteq> c"
proof (cases "index_of c (drop pos s)")
  case None
  then have "c \<notin> set (drop pos s)" by (simp add: index_of_None)
  show ?thesis
  proof (intro allI impI)
    fix j assume j: "pos \<le> j \<and> j < length s"
    then have "j - pos < length s - pos" by arith
    then have "j - pos < length (drop pos s)" by simp
    then have "drop pos s ! (j - pos) \<in> set (drop pos s)" by (rule nth_mem)
    moreover have "drop pos s ! (j - pos) = s ! j" using j by simp
    ultimately show "s ! j \<noteq> c" using \<open>c \<notin> set (drop pos s)\<close> by metis
  qed
next
  case (Some k)
  from index_of_Some [OF Some] have "k < length s - pos" by simp
  with assms Some show ?thesis by (simp add: find_first_of_def)
qed

lemma find_first_of_first:
  assumes "pos \<le> h" "h < length s" "s ! h = c" "\<forall>j. pos \<le> j \<and> j < h \<longrightarrow> s ! j \<noteq> c"
    "length s < npos"
  shows "find_first_of s c pos = h"
proof -
  have ne: "find_first_of s c pos \<noteq> npos"
    using find_first_of_none [of s c pos] assms by blast
  let ?r = "find_first_of s c pos"
  from find_first_of_found [OF ne assms(5)]
  have r: "pos \<le> ?r" "?r < length s" "s ! ?r = c" "\<forall>j. pos \<le> j \<and> j < ?r \<longrightarrow> s ! j \<noteq> c"
    by blast+
  have "\<not> ?r < h" using r(1,3) assms(4) by blast
  moreover have "\<not> h < ?r" using r(4) assms(1,3) by blast
  ultimately show ?thesis by simp
qed

section \<open>One matrix over one record\<close>

lemma reverse_complement_from_ok:
  "begin \<le> i \<Longrightarrow> i < length fasta \<Longrightarrow>
   reverse_complement_from other fasta begin i =
     Inr (map (complement other) (rev (take (Suc i - begin) (drop begin fasta))))"
proof (induction "i - begin" arbitrary: i)
  case 0
  then have "i = begin" by simp
  with 0 show ?case
    by (subst reverse_complement_from.simps) (simp add: take_Suc_conv_app_nth)
next
  case (Suc n)
  then obtain j where j: "i = Suc j" "begin \<le> j" "n = j - begin" "j < length fasta"
    by (cases i) auto
  from Suc.hyps(1) [OF j(3) j(2) j(4)]
  have IH: "reverse_complement_from other fasta begin j =
     Inr (map (complement other) (rev (take (Suc j - begin) (drop begin fasta))))" .
  have t: "take (Suc i - begin) (drop begin fasta)
           = take (Suc j - begin) (drop begin fasta) @ [fasta ! i]"
  proof -
    have "Suc i - begin = Suc (Suc j - begin)" using j by simp
    moreover have "Suc j - begin < length (drop begin fasta)" using j Suc.prems by simp
    moreover have "drop begin fasta ! (Suc j - begin) = fasta ! i" using j Suc.prems by simp
    ultimately show ?thesis by (simp add: take_Suc_conv_app_nth)
  qed
  have "i \<noteq> begin" using j by simp
  then show ?case using Suc.prems j(1) IH t
    by (subst reverse_complement_from.simps) simp
qed


lemma render_sequence_ok:
  assumes "length fasta < npos" "b + matrix_size m \<le> length fasta"
    "is_reverse_complement m \<longrightarrow> 0 < matrix_size m"
  shows "render_sequence other fasta m b
         = Inr (if is_reverse_complement m
                then map (complement other) (rev (window_bytes fasta m b))
                else window_bytes fasta m b)"
proof (cases "is_reverse_complement m")
  case False
  then show ?thesis using assms(2)
    by (simp add: render_sequence_def write_bytes_def window_bytes_def)
next
  case True
  with assms(3) have w: "0 < matrix_size m" by simp
  have blt: "b + matrix_size m < 2 ^ 64" using assms(1,2) by (simp add: npos_def)
  have "size_add b (matrix_size m) = b + matrix_size m"
    using blt by (rule size_add_small)
  moreover have "size_sub (b + matrix_size m) 1 = b + matrix_size m - 1"
    using blt w by (intro size_sub_small) simp_all
  ultimately have i: "size_sub (size_add b (matrix_size m)) 1 = b + matrix_size m - 1"
    by simp
  have "reverse_complement_from other fasta b (b + matrix_size m - 1)
        = Inr (map (complement other)
                 (rev (take (Suc (b + matrix_size m - 1) - b) (drop b fasta))))"
    using assms(2) w by (intro reverse_complement_from_ok) simp_all
  moreover have "Suc (b + matrix_size m - 1) - b = matrix_size m" using w by simp
  ultimately show ?thesis using True i
    by (simp add: render_sequence_def window_bytes_def)
qed

lemma format_match_ok:
  assumes "name_begin \<le> name_end" "name_end \<le> length fasta" "length fasta < npos"
    "sequence_begin \<le> b" "b + matrix_size m \<le> length fasta"
    "is_reverse_complement m \<longrightarrow> 0 < matrix_size m"
  shows "format_match other fasta m name_begin name_end sequence_begin b (b + matrix_size m)
           (detail_score m fasta b (b + matrix_size m)) (window_pvalue fasta m b)
         = Inr (window_line other fasta m name_begin name_end sequence_begin b)"
proof -
  have lt: "length fasta < 2 ^ 64" using assms(3) by (simp add: npos_def)
  have nl: "size_sub name_end name_begin = name_end - name_begin"
    using assms(1,2) lt by (simp add: size_sub_small)
  have nm: "write_bytes fasta name_begin (size_sub name_end name_begin)
            = Inr (take (name_end - name_begin) (drop name_begin fasta))"
    using assms(1,2) nl by (simp add: write_bytes_def)
  have blt: "b + matrix_size m < 2 ^ 64" "b < 2 ^ 64" using assms(5) lt by simp_all
  have "size_sub b sequence_begin = b - sequence_begin"
    using assms(4) blt(2) by (rule size_sub_small)
  moreover have "b - sequence_begin + 1 < 2 ^ 64" using assms(3,5) by (simp add: npos_def)
  ultimately have st: "size_add (size_sub b sequence_begin) 1 = b - sequence_begin + 1"
    by (simp only: size_add_small)
  have "sequence_begin \<le> b + matrix_size m" using assms(4) by simp
  then have sp: "size_sub (b + matrix_size m) sequence_begin
                 = b + matrix_size m - sequence_begin"
    using blt(1) by (rule size_sub_small)
  have rs: "render_sequence other fasta m b
            = Inr (if is_reverse_complement m
                   then map (complement other) (rev (window_bytes fasta m b))
                   else window_bytes fasta m b)"
    using assms(3,5,6) by (rule render_sequence_ok)
  show ?thesis
    unfolding format_match_def Let_def nm st sp rs
    by (simp add: window_line_def)
qed


lemma score_windows_ok:
  assumes "name_begin \<le> name_end" "name_end \<le> length fasta" "length fasta < npos"
    "sequence_end \<le> length fasta" "matrix_ok fasta m"
  shows "sequence_begin \<le> b \<Longrightarrow>
         score_windows other fasta m name_begin name_end sequence_begin sequence_end
           b (b + matrix_size m) st
         = Inr (st\<lparr>ss := ss st @ map (window_line other fasta m name_begin name_end sequence_begin)
                            (filter (\<lambda>b. window_pvalue fasta m b < 1 / 1000)
                               [b ..< Suc sequence_end - matrix_size m]),
                   scored := scored st @ map (\<lambda>b. (name_begin - 1, name m, b, b + matrix_size m))
                               [b ..< Suc sequence_end - matrix_size m],
                   results := results st @ map (\<lambda>b. detail_score m fasta b (b + matrix_size m))
                               [b ..< Suc sequence_end - matrix_size m]\<rparr>)"
proof (induction "Suc sequence_end - matrix_size m - b" arbitrary: b st)
  case 0
  then have "\<not> b + matrix_size m \<le> sequence_end" by arith
  moreover have "[b ..< Suc sequence_end - matrix_size m] = []" using 0 by simp
  ultimately show ?case
    by (subst score_windows.simps) simp
next
  case (Suc n)
  let ?w = "matrix_size m"
  let ?e = "b + ?w"
  have fit: "?e \<le> sequence_end" using Suc.hyps(2) by arith
  have ins: "inside fasta b ?e" using fit assms(3,4) by (simp add: inside_def)
  have lt: "?e + 1 < 2 ^ 64" using fit assms(3,4) by (simp add: npos_def)
  have b1: "size_add b 1 = Suc b" using lt by (simp add: size_add_def)
  have e1: "size_add ?e 1 = Suc b + ?w" using lt by (simp add: size_add_def)
  have valid: "detail_score m fasta b ?e < length (pvalues m)"
    using assms(5) by (simp add: matrix_ok_def)
  have rc: "is_reverse_complement m \<longrightarrow> 0 < ?w"
    using assms(5) by (simp add: matrix_ok_def)
  have fm: "format_match other fasta m name_begin name_end sequence_begin b ?e
              (detail_score m fasta b ?e) (window_pvalue fasta m b)
            = Inr (window_line other fasta m name_begin name_end sequence_begin b)"
    using assms(1,2,3) Suc.prems _ rc
  proof (rule format_match_ok)
    show "?e \<le> length fasta" using fit assms(4) by simp
  qed
  have up: "[b ..< Suc sequence_end - ?w] = b # [Suc b ..< Suc sequence_end - ?w]"
    using fit by (simp add: upt_conv_Cons)
  have n: "n = Suc sequence_end - ?w - Suc b" using Suc.hyps(2) by arith
  have sb: "sequence_begin \<le> Suc b" using Suc.prems by simp
  note IH = Suc.hyps(1) [OF n sb]
  have pv: "pvalues m ! detail_score m fasta b ?e = window_pvalue fasta m b"
    by (simp add: window_pvalue_def)
  show ?case
  proof (cases "window_pvalue fasta m b < 1 / 1000")
    case True
    then show ?thesis
      apply (subst score_windows.simps)
      apply (simp only: fit ins valid pv fm b1 e1 Let_def if_True not_True_eq_False if_False sum.case IH up)
      apply simp
      done
  next
    case False
    then show ?thesis
      apply (subst score_windows.simps)
      apply (simp only: fit ins valid pv fm b1 e1 Let_def if_True not_True_eq_False if_False sum.case IH up)
      apply simp
      done
  qed
qed

section \<open>All matrices over one record, all records of one region\<close>

lemma score_matrices_ok:
  assumes "name_begin \<le> name_end" "name_end \<le> length fasta" "length fasta < npos"
    "sequence_begin \<le> length fasta" "sequence_end \<le> length fasta"
  shows "\<forall>m \<in> set ms. matrix_ok fasta m \<Longrightarrow>
         score_matrices other fasta ms name_begin name_end sequence_begin sequence_end st
         = Inr (st\<lparr>ss := ss st @ record_lines other fasta ms name_begin name_end
                                  sequence_begin sequence_end,
                   scored := scored st @ record_calls ms name_begin sequence_begin sequence_end,
                   results := results st @ record_results fasta ms sequence_begin sequence_end\<rparr>)"
proof (induction ms arbitrary: st)
  case Nil
  show ?case by (simp add: record_lines_def record_calls_def record_results_def)
next
  case (Cons m ms)
  then have ok: "matrix_ok fasta m" and rest: "\<forall>m \<in> set ms. matrix_ok fasta m"
    by simp_all
  have "sequence_begin + matrix_size m < 2 ^ 64"
    using ok assms(4) by (simp add: matrix_ok_def npos_def)
  then have e0: "size_add sequence_begin (matrix_size m) = sequence_begin + matrix_size m"
    by (rule size_add_small)
  have w: "score_windows other fasta m name_begin name_end sequence_begin sequence_end
             sequence_begin (sequence_begin + matrix_size m) st
           = Inr (st\<lparr>ss := ss st @ matrix_lines other fasta m name_begin name_end
                                     sequence_begin sequence_end,
                     scored := scored st @ matrix_calls m name_begin sequence_begin sequence_end,
                     results := results st @ matrix_results fasta m sequence_begin sequence_end\<rparr>)"
    using score_windows_ok [OF assms(1,2,3,5) ok, of sequence_begin sequence_begin other st]
    by (simp add: matrix_lines_def matrix_calls_def matrix_results_def window_starts_def)
  show ?case
    by (simp add: e0 w Cons.IH [OF rest] record_lines_def record_calls_def record_results_def)
qed

lemma filter_upt_skip:
  assumes "a \<le> c" "\<forall>j. a \<le> j \<and> j < c \<longrightarrow> \<not> P j"
  shows "filter P [a ..< e] = filter P [c ..< e]"
proof (cases "c \<le> e")
  case True
  then have "[a ..< e] = [a ..< c] @ [c ..< e]"
    using assms(1) by (metis le_Suc_ex upt_add_eq_append)
  moreover have "filter P [a ..< c] = []" using assms(2) by (simp add: filter_empty_conv)
  ultimately show ?thesis by simp
next
  case False
  then have "filter P [a ..< e] = []" using assms(2) by (simp add: filter_empty_conv)
  moreover have "e \<le> c" using False by simp
  ultimately show ?thesis by simp
qed


lemma locate_eqs:
  assumes "locate fasta h = (nb, ne, sb, se)"
  shows "nb = size_add h 1" "ne = find_first_of fasta (CHR 0x0A) (size_add nb 1)"
    "sb = size_add ne 1" "se = find_first_of fasta (CHR 0x0A) (size_add sb 1)"
  using assms by (auto simp: locate_def Let_def)

lemma regular_spans:
  assumes "regular_fasta fasta" "h < length fasta" "fasta ! h = CHR ''>''"
    "record_spans fasta h = (nb, ne, sb, se)"
  shows "nb = Suc h \<and> nb < ne \<and> ne < length fasta \<and> sb = Suc ne \<and> sb < se \<and> se < length fasta
         \<and> fasta ! ne = CHR 0x0A \<and> fasta ! se = CHR 0x0A
         \<and> (\<forall>j. nb \<le> j \<and> j < ne \<longrightarrow> fasta ! j \<noteq> CHR 0x0A)
         \<and> (\<forall>j. sb \<le> j \<and> j < se \<longrightarrow> fasta ! j \<noteq> CHR 0x0A)
         \<and> (\<forall>j. h < j \<and> j \<le> se \<longrightarrow> fasta ! j \<noteq> CHR ''>'')"
proof -
  have len: "length fasta < npos" using assms(1) by (simp add: regular_fasta_def)
  have rr: "regular_record fasta h"
    using assms(1,2,3) by (simp add: regular_fasta_def headers_def)
  have nb: "nb = Suc h" and sb: "sb = Suc ne"
    and ne: "ne = find_first_of fasta (CHR 0x0A) (Suc h)"
    and se: "se = find_first_of fasta (CHR 0x0A) (Suc ne)"
    using assms(4) by (auto simp: record_spans_def Let_def)
  have ok: "ne \<noteq> npos" "se \<noteq> npos" "nb < ne" "sb < se"
    "headers fasta (Suc h) (Suc se) = []"
    using rr assms(4) by (auto simp: regular_record_def split: if_splits)
  from find_first_of_found [of fasta "CHR 0x0A" "Suc h"] ne ok(1) len
  have ne_b: "ne < length fasta" "fasta ! ne = CHR 0x0A"
    "\<forall>j. Suc h \<le> j \<and> j < ne \<longrightarrow> fasta ! j \<noteq> CHR 0x0A"
    by simp_all
  from find_first_of_found [of fasta "CHR 0x0A" "Suc ne"] se ok(2) len
  have se_b: "se < length fasta" "fasta ! se = CHR 0x0A"
    "\<forall>j. Suc ne \<le> j \<and> j < se \<longrightarrow> fasta ! j \<noteq> CHR 0x0A"
    by simp_all
  have "\<forall>j \<in> set [Suc h ..< Suc se]. fasta ! j \<noteq> CHR ''>''"
    using ok(5) unfolding headers_def filter_empty_conv by blast
  then have "\<forall>j. h < j \<and> j \<le> se \<longrightarrow> fasta ! j \<noteq> CHR ''>''"
    by (metis atLeastLessThan_iff set_upt Suc_leI less_Suc_eq_le)
  then show ?thesis using nb sb ok(3,4) ne_b se_b by simp
qed

lemma locate_regular:
  assumes "regular_fasta fasta" "h < length fasta" "fasta ! h = CHR ''>''"
  shows "locate fasta h = record_spans fasta h"
proof -
  obtain nb ne sb se where sp: "record_spans fasta h = (nb, ne, sb, se)"
    by (cases "record_spans fasta h") auto
  from regular_spans [OF assms sp]
  have r: "nb = Suc h" "nb < ne" "ne < length fasta" "sb = Suc ne" "sb < se" "se < length fasta"
    "fasta ! ne = CHR 0x0A" "fasta ! se = CHR 0x0A"
    "\<forall>j. nb \<le> j \<and> j < ne \<longrightarrow> fasta ! j \<noteq> CHR 0x0A"
    "\<forall>j. sb \<le> j \<and> j < se \<longrightarrow> fasta ! j \<noteq> CHR 0x0A"
    by blast+
  have len: "length fasta < npos" using assms(1) by (simp add: regular_fasta_def)
  then have lt: "length fasta < 2 ^ 64 - 1" by (simp add: npos_def)
  have a1: "size_add h 1 = nb" using r(1) lt assms(2) by (simp add: size_add_def)
  have a2: "size_add nb 1 = Suc nb" using r(1) lt assms(2) by (simp add: size_add_def)
  have f1: "find_first_of fasta (CHR 0x0A) (Suc nb) = ne"
  proof (rule find_first_of_first [OF _ r(3) r(7) _ len])
    show "Suc nb \<le> ne" using r(2) by simp
    show "\<forall>j. Suc nb \<le> j \<and> j < ne \<longrightarrow> fasta ! j \<noteq> CHR 0x0A" using r(9) by simp
  qed
  have a3: "size_add ne 1 = sb" using r(3,4) lt by (simp add: size_add_def)
  have a4: "size_add sb 1 = Suc sb" using r(3,4) lt by (simp add: size_add_def)
  have f2: "find_first_of fasta (CHR 0x0A) (Suc sb) = se"
  proof (rule find_first_of_first [OF _ r(6) r(8) _ len])
    show "Suc sb \<le> se" using r(5) by simp
    show "\<forall>j. Suc sb \<le> j \<and> j < se \<longrightarrow> fasta ! j \<noteq> CHR 0x0A" using r(10) by simp
  qed
  have "locate fasta h = (nb, ne, sb, se)"
    unfolding locate_def Let_def a1 a2 f1 a3 a4 f2 by (rule refl)
  with sp show ?thesis by simp
qed

lemma headers_none:
  assumes "\<forall>j. b \<le> j \<and> j < e \<longrightarrow> fasta ! j \<noteq> CHR ''>''"
  shows "headers fasta b e = []"
  using assms by (simp add: headers_def filter_empty_conv)

lemma headers_first:
  assumes "b \<le> h" "h < e" "fasta ! h = CHR ''>''"
    "\<forall>j. b \<le> j \<and> j < h \<longrightarrow> fasta ! j \<noteq> CHR ''>''"
    "h < c" "\<forall>j. h < j \<and> j < c \<longrightarrow> fasta ! j \<noteq> CHR ''>''"
  shows "headers fasta b e = h # headers fasta c e"
proof -
  have "filter (\<lambda>h. fasta ! h = CHR ''>'') [b ..< e] = filter (\<lambda>h. fasta ! h = CHR ''>'') [h ..< e]"
    using assms(1,4) by (intro filter_upt_skip) auto
  also have "[h ..< e] = h # [Suc h ..< e]" using assms(2) by (simp add: upt_conv_Cons)
  also have "filter (\<lambda>h. fasta ! h = CHR ''>'') (h # [Suc h ..< e])
             = h # filter (\<lambda>h. fasta ! h = CHR ''>'') [Suc h ..< e]"
    using assms(3) by simp
  also have "filter (\<lambda>h. fasta ! h = CHR ''>'') [Suc h ..< e]
             = filter (\<lambda>h. fasta ! h = CHR ''>'') [c ..< e]"
    using assms(5,6) by (intro filter_upt_skip) auto
  finally show ?thesis by (simp add: headers_def)
qed

lemma score_ok:
  assumes "regular_fasta fasta" "\<forall>m \<in> set ms. matrix_ok fasta m" "e \<le> length fasta"
  shows "score other fasta ms b e st
         = Some (Inr (st\<lparr>ss := ss st @ concat (map (spans_lines other fasta ms) (headers fasta b e)),
                         scored := scored st @ concat (map (spans_calls fasta ms) (headers fasta b e)),
                         results := results st
                                    @ concat (map (spans_results fasta ms) (headers fasta b e))\<rparr>))"
proof (induction "length fasta - b" arbitrary: b st rule: less_induct)
  case less
  have len: "length fasta < npos" using assms(1) by (simp add: regular_fasta_def)
  let ?found = "find_first_of fasta (CHR ''>'') b"
  show ?case
  proof (cases "?found = npos")
    case True
    then have "\<forall>j. b \<le> j \<and> j < length fasta \<longrightarrow> fasta ! j \<noteq> CHR ''>''"
      using len by (intro find_first_of_none)
    then have "headers fasta b e = []" using assms(3) by (intro headers_none) auto
    moreover have "e \<le> ?found" using True assms(3) len by simp
    ultimately show ?thesis by (subst score.simps) simp
  next
    case False
    from find_first_of_found [OF False len]
    have f: "b \<le> ?found" "?found < length fasta" "fasta ! ?found = CHR ''>''"
      "\<forall>j. b \<le> j \<and> j < ?found \<longrightarrow> fasta ! j \<noteq> CHR ''>''"
      by blast+
    show ?thesis
    proof (cases "e \<le> ?found")
      case True
      then have "headers fasta b e = []" using f(4) by (intro headers_none) auto
      then show ?thesis using True by (subst score.simps) simp
    next
      case inreg: False
      obtain nb ne sb se where sp: "record_spans fasta ?found = (nb, ne, sb, se)"
        by (cases "record_spans fasta ?found") auto
      have loc: "locate fasta ?found = (nb, ne, sb, se)"
        using locate_regular [OF assms(1) f(2,3)] sp by simp
      from regular_spans [OF assms(1) f(2,3) sp]
      have r: "nb = Suc ?found" "nb < ne" "ne < length fasta" "sb = Suc ne" "sb < se"
        "se < length fasta" "\<forall>j. ?found < j \<and> j \<le> se \<longrightarrow> fasta ! j \<noteq> CHR ''>''"
        by blast+
      have sm: "score_matrices other fasta ms nb ne sb se st
                = Inr (st\<lparr>ss := ss st @ record_lines other fasta ms nb ne sb se,
                          scored := scored st @ record_calls ms nb sb se,
                          results := results st @ record_results fasta ms sb se\<rparr>)"
        using r assms(2) len by (intro score_matrices_ok) simp_all
      have "Suc se < 2 ^ 64" using r(6) len by (simp add: npos_def)
      then have nx: "size_add se 1 = Suc se" by (simp add: size_add_def)
      have dec: "length fasta - Suc se < length fasta - b" using f(1) r by arith
      have hs: "headers fasta b e = ?found # headers fasta (Suc se) e"
        using f(1) _ f(3,4)
      proof (rule headers_first)
        show "?found < e" using inreg by simp
        show "?found < Suc se" using r by simp
        show "\<forall>j. ?found < j \<and> j < Suc se \<longrightarrow> fasta ! j \<noteq> CHR ''>''" using r(7) by simp
      qed
      have hl: "spans_lines other fasta ms ?found = record_lines other fasta ms nb ne sb se"
        by (simp add: spans_lines_def sp)
      have hc: "spans_calls fasta ms ?found = record_calls ms nb sb se"
        by (simp add: spans_calls_def sp)
      have hr: "spans_results fasta ms ?found = record_results fasta ms sb se"
        by (simp add: spans_results_def sp)
      show ?thesis
        apply (subst score.simps)
        apply (simp only: Let_def inreg if_False loc prod.case sm sum.case nx less.hyps [OF dec])
        apply (simp add: hs hl hc hr)
        done
    qed
  qed
qed

section \<open>What a scan that returns has done\<close>

lemma reverse_complement_from_Inr:
  "reverse_complement_from other fasta begin i = Inr r \<Longrightarrow> begin \<le> i \<and> i < length fasta"
proof (induction i arbitrary: r)
  case 0
  then show ?case
    by (subst (asm) reverse_complement_from.simps) (auto split: if_splits)
next
  case (Suc j)
  show ?case
  proof (cases "Suc j = begin")
    case True
    with Suc.prems show ?thesis
      by (subst (asm) reverse_complement_from.simps) (auto split: if_splits)
  next
    case False
    from Suc.prems have lt: "Suc j < length fasta"
      by (subst (asm) reverse_complement_from.simps) (auto split: if_splits)
    from Suc.prems False lt obtain rest where "reverse_complement_from other fasta begin j = Inr rest"
      by (subst (asm) reverse_complement_from.simps) (auto split: if_splits sum.splits)
    from Suc.IH [OF this] lt show ?thesis by simp
  qed
qed

lemma render_sequence_Inr:
  assumes "render_sequence other fasta m b = Inr sq" "b + matrix_size m \<le> length fasta"
    "length fasta < npos"
  shows "is_reverse_complement m \<longrightarrow> 0 < matrix_size m"
proof
  assume rc: "is_reverse_complement m"
  show "0 < matrix_size m"
  proof (rule ccontr)
    assume "\<not> 0 < matrix_size m"
    then have w: "matrix_size m = 0" by simp
    have blt: "b < 2 ^ 64" using assms(2,3) by (simp add: npos_def)
    have "size_add b 0 = b" using blt by (simp add: size_add_def)
    with assms(1) rc w
    have r: "reverse_complement_from other fasta b (size_sub b 1) = Inr sq"
      by (simp add: render_sequence_def)
    from reverse_complement_from_Inr [OF r]
    have i: "b \<le> size_sub b 1" "size_sub b 1 < length fasta" by simp_all
    show False
    proof (cases "b = 0")
      case True
      then have "size_sub b 1 = npos" by (simp add: size_sub_def npos_def)
      with i(2) assms(3) show False by simp
    next
      case False
      then have "size_sub b 1 = b - 1" using blt by (intro size_sub_small) simp_all
      with i(1) False show False by simp
    qed
  qed
qed

lemma format_match_Inr:
  assumes "format_match other fasta m name_begin name_end sequence_begin b (b + matrix_size m)
             scaled_score p = Inr line"
    "name_end = npos \<or> (name_begin \<le> name_end \<and> name_end \<le> length fasta)"
    "name_begin \<le> length fasta" "length fasta < npos" "b + matrix_size m \<le> length fasta"
  shows "name_begin \<le> name_end \<and> name_end \<le> length fasta
         \<and> (is_reverse_complement m \<longrightarrow> 0 < matrix_size m)"
proof -
  from assms(1) obtain nm sq where
    nm: "write_bytes fasta name_begin (size_sub name_end name_begin) = Inr nm"
    and sq: "render_sequence other fasta m b = Inr sq"
    by (auto simp: format_match_def Let_def split: sum.splits)
  have "name_end \<noteq> npos"
  proof
    assume e: "name_end = npos"
    have "name_begin < 2 ^ 64" using assms(3,4) by (simp add: npos_def)
    then have "size_sub npos name_begin = npos - name_begin"
      by (intro size_sub_small) (simp_all add: npos_def)
    then have "name_begin + size_sub npos name_begin = npos"
      using assms(3,4) by simp
    with nm e assms(4) show False
      by (simp add: write_bytes_def split: if_splits)
  qed
  with assms(2) render_sequence_Inr [OF sq assms(5,4)] show ?thesis by simp
qed


lemma score_windows_Inr:
  assumes "length fasta < npos"
    "name_end = npos \<or> (name_begin \<le> name_end \<and> name_end \<le> length fasta)"
    "name_begin \<le> length fasta"
  shows "sequence_begin \<le> b \<Longrightarrow>
         score_windows other fasta m name_begin name_end sequence_begin sequence_end
           b (b + matrix_size m) st = Inr st' \<Longrightarrow>
         ss st' = ss st @ map (window_line other fasta m name_begin name_end sequence_begin)
                            (filter (\<lambda>b. window_pvalue fasta m b < 1 / 1000)
                               [b ..< Suc sequence_end - matrix_size m])"
proof (induction "npos - (b + matrix_size m)" arbitrary: b st rule: less_induct)
  case less
  let ?w = "matrix_size m"
  let ?e = "b + ?w"
  show ?case
  proof (cases "?e \<le> sequence_end")
    case False
    then have none: "[b ..< Suc sequence_end - ?w] = []" by simp
    have "st' = st"
      using less.prems(2) False by (subst (asm) score_windows.simps) simp
    then show ?thesis unfolding none by simp
  next
    case fit: True
    have ins: "inside fasta b ?e"
      using less.prems(2) fit by (subst (asm) score_windows.simps) (simp split: if_splits)
    then have bnd: "?e \<le> length fasta" "?e < npos" by (simp_all add: inside_def)
    have valid: "detail_score m fasta b ?e < length (pvalues m)"
      using less.prems(2) fit ins
      by (subst (asm) score_windows.simps) (simp add: Let_def split: if_splits)
    have lt: "?e + 1 < 2 ^ 64" using bnd(2) by (simp add: npos_def)
    have b1: "size_add b 1 = Suc b" using lt by (simp add: size_add_def)
    have e1: "size_add ?e 1 = Suc b + ?w" using lt by (simp add: size_add_def)
    have pv: "pvalues m ! detail_score m fasta b ?e = window_pvalue fasta m b"
      by (simp add: window_pvalue_def)
    have up: "[b ..< Suc sequence_end - ?w] = b # [Suc b ..< Suc sequence_end - ?w]"
      using fit by (simp add: upt_conv_Cons)
    have dec: "npos - (Suc b + ?w) < npos - ?e" using bnd(2) by simp
    have sb: "sequence_begin \<le> Suc b" using less.prems(1) by simp
    let ?st1 = "st\<lparr>scored := scored st @ [(name_begin - 1, name m, b, ?e)],
                   results := results st @ [detail_score m fasta b ?e]\<rparr>"
    show ?thesis
    proof (cases "window_pvalue fasta m b < 1 / 1000")
      case False
      have "score_windows other fasta m name_begin name_end sequence_begin sequence_end
              (Suc b) (Suc b + ?w) ?st1 = Inr st'"
        using less.prems(2)
        apply (subst (asm) score_windows.simps)
        apply (simp only: fit ins valid pv b1 e1 Let_def if_True not_True_eq_False if_False False)
        done
      from less.hyps [OF dec sb this] show ?thesis using False up by simp
    next
      case True
      obtain line where fm: "format_match other fasta m name_begin name_end sequence_begin b ?e
                               (detail_score m fasta b ?e) (window_pvalue fasta m b) = Inr line"
        using less.prems(2)
        apply (subst (asm) score_windows.simps)
        apply (simp only: fit ins valid pv b1 e1 Let_def if_True not_True_eq_False if_False True)
        apply (auto split: sum.splits)
        done
      from format_match_Inr [OF fm assms(2,3,1) bnd(1)]
      have nm: "name_begin \<le> name_end" "name_end \<le> length fasta"
        "is_reverse_complement m \<longrightarrow> 0 < ?w"
        by simp_all
      have "format_match other fasta m name_begin name_end sequence_begin b ?e
              (detail_score m fasta b ?e) (window_pvalue fasta m b)
            = Inr (window_line other fasta m name_begin name_end sequence_begin b)"
        using nm(1,2) assms(1) less.prems(1) bnd(1) nm(3) by (rule format_match_ok)
      with fm have line: "line = window_line other fasta m name_begin name_end sequence_begin b"
        by simp
      have "score_windows other fasta m name_begin name_end sequence_begin sequence_end
              (Suc b) (Suc b + ?w) (?st1\<lparr>ss := ss ?st1 @ [line]\<rparr>) = Inr st'"
        using less.prems(2)
        apply (subst (asm) score_windows.simps)
        apply (simp only: fit ins valid pv b1 e1 Let_def if_True not_True_eq_False if_False True
            fm sum.case)
        done
      from less.hyps [OF dec sb this] show ?thesis using True up line by simp
    qed
  qed
qed

lemma score_windows_returns:
  assumes "length fasta < npos"
    "name_end = npos \<or> (name_begin \<le> name_end \<and> name_end \<le> length fasta)"
    "name_begin \<le> length fasta" "sequence_begin \<le> length fasta" "sequence_end \<le> npos"
    "matrix_size m \<le> npos"
    "score_windows other fasta m name_begin name_end sequence_begin sequence_end
       sequence_begin (size_add sequence_begin (matrix_size m)) st = Inr st'"
  shows "ss st' = ss st @ matrix_lines other fasta m name_begin name_end
                            sequence_begin sequence_end"
proof (cases "sequence_begin + matrix_size m < 2 ^ 64")
  case True
  then have "size_add sequence_begin (matrix_size m) = sequence_begin + matrix_size m"
    by (rule size_add_small)
  with assms(7) score_windows_Inr [OF assms(1,2,3), of sequence_begin sequence_begin other m
      sequence_end st st']
  show ?thesis by (simp add: matrix_lines_def window_starts_def)
next
  case False
  let ?e = "size_add sequence_begin (matrix_size m)"
  have sbl: "sequence_begin < 2 ^ 64" using assms(1,4) by (simp add: npos_def)
  have wl: "matrix_size m < 2 ^ 64" using assms(6) by (simp add: npos_def)
  have "sequence_begin + matrix_size m = 2 ^ 64 + (sequence_begin + matrix_size m - 2 ^ 64)"
    using False by simp
  moreover have "sequence_begin + matrix_size m - 2 ^ 64 < 2 ^ 64" using sbl wl by simp
  ultimately have e: "?e = sequence_begin + matrix_size m - 2 ^ 64"
    unfolding size_add_def by (metis mod_add_self1 mod_less)
  then have small: "?e < sequence_begin" using wl False by simp
  have none: "window_starts sequence_begin sequence_end (matrix_size m) = []"
    using False assms(5) by (simp add: window_starts_def npos_def)
  have "\<not> inside fasta sequence_begin ?e" using small by (simp add: inside_def)
  then have "st' = st"
    using assms(7) by (subst (asm) score_windows.simps) (simp split: if_splits)
  with none show ?thesis by (simp add: matrix_lines_def)
qed

lemma score_matrices_returns:
  assumes "length fasta < npos"
    "name_end = npos \<or> (name_begin \<le> name_end \<and> name_end \<le> length fasta)"
    "name_begin \<le> length fasta" "sequence_begin \<le> length fasta" "sequence_end \<le> npos"
  shows "\<forall>m \<in> set ms. matrix_size m \<le> npos \<Longrightarrow>
         score_matrices other fasta ms name_begin name_end sequence_begin sequence_end st
           = Inr st' \<Longrightarrow>
         ss st' = ss st @ record_lines other fasta ms name_begin name_end
                            sequence_begin sequence_end"
proof (induction ms arbitrary: st)
  case Nil
  then show ?case by (simp add: record_lines_def)
next
  case (Cons m ms)
  from Cons.prems(2) obtain st1 where
    w: "score_windows other fasta m name_begin name_end sequence_begin sequence_end
          sequence_begin (size_add sequence_begin (matrix_size m)) st = Inr st1"
    and r: "score_matrices other fasta ms name_begin name_end sequence_begin sequence_end st1
            = Inr st'"
    by (auto split: sum.splits)
  have m: "matrix_size m \<le> npos" and rest: "\<forall>m \<in> set ms. matrix_size m \<le> npos"
    using Cons.prems(1) by simp_all
  from score_windows_returns [OF assms m w] Cons.IH [OF rest r]
  show ?case by (simp add: record_lines_def)
qed

lemma located:
  assumes "length fasta < npos" "found < length fasta"
    "locate fasta found = (nb, ne, sb, se)"
  shows "nb = Suc found \<and> nb \<le> length fasta \<and> (ne = npos \<or> (nb \<le> ne \<and> ne \<le> length fasta))
         \<and> sb \<le> length fasta \<and> se \<le> npos"
proof -
  have lt: "length fasta < 2 ^ 64 - 1" using assms(1) by (simp add: npos_def)
  note eqs = locate_eqs [OF assms(3)]
  have nb: "nb = Suc found" using eqs(1) lt assms(2) by (simp add: size_add_def)
  have ne: "ne = npos \<or> (nb \<le> ne \<and> ne \<le> length fasta)"
  proof (cases "ne = npos")
    case False
    have nb1: "size_add nb 1 = Suc nb" using nb lt assms(2) by (simp add: size_add_def)
    from find_first_of_found [of fasta "CHR 0x0A" "Suc nb"] eqs(2) nb1 False assms(1)
    show ?thesis by simp
  qed simp
  have sb: "sb \<le> length fasta"
  proof (cases "ne = npos")
    case True
    then show ?thesis using eqs(3) by (simp add: size_add_def npos_def)
  next
    case False
    have nb1: "size_add nb 1 = Suc nb" using nb lt assms(2) by (simp add: size_add_def)
    from find_first_of_found [of fasta "CHR 0x0A" "Suc nb"] eqs(2) nb1 False assms(1)
    have "ne < length fasta" by simp
    then show ?thesis using eqs(3) lt by (simp add: size_add_def)
  qed
  have se: "se \<le> npos"
  proof (cases "se = npos")
    case False
    from find_first_of_found [of fasta "CHR 0x0A" "size_add sb 1"] eqs(4) False assms(1)
    show ?thesis by simp
  qed simp
  show ?thesis using nb ne sb se assms(2) by simp
qed


lemma score_returns:
  assumes ret: "score other fasta ms b e st = Some (Inr st')"
    and len: "length fasta < npos" and reg: "e \<le> npos"
    and ws: "\<forall>m \<in> set ms. matrix_size m \<le> npos"
  shows "\<exists>hs. scans fasta b e hs
              \<and> ss st' = ss st @ concat (map (located_lines other fasta ms) hs)"
proof -
  have "length fasta < npos \<longrightarrow> e \<le> npos \<longrightarrow> (\<forall>m \<in> set ms. matrix_size m \<le> npos) \<longrightarrow>
        (\<forall>st'. y = Inr st' \<longrightarrow>
           (\<exists>hs. scans fasta b e hs
                 \<and> ss st' = ss st @ concat (map (located_lines other fasta ms) hs)))"
    if r: "score other fasta ms b e st = Some y" for other fasta ms b e st y
  proof (rule score.raw_induct
      [where P = "\<lambda>other fasta ms b e st y.
          length fasta < npos \<longrightarrow> e \<le> npos \<longrightarrow> (\<forall>m \<in> set ms. matrix_size m \<le> npos) \<longrightarrow>
          (\<forall>st'. y = Inr st' \<longrightarrow>
             (\<exists>hs. scans fasta b e hs
                   \<and> ss st' = ss st @ concat (map (located_lines other fasta ms) hs)))",
        OF _ r])
    fix f :: "(char \<Rightarrow> char) \<Rightarrow> string \<Rightarrow> ScoreMatrix list \<Rightarrow> nat \<Rightarrow> nat \<Rightarrow> Scorer
                \<Rightarrow> (error + Scorer) option"
    fix other fasta ms b e st y
    assume IH: "\<And>other fasta ms b e st y. f other fasta ms b e st = Some y \<Longrightarrow>
          length fasta < npos \<longrightarrow> e \<le> npos \<longrightarrow> (\<forall>m \<in> set ms. matrix_size m \<le> npos) \<longrightarrow>
          (\<forall>st'. y = Inr st' \<longrightarrow>
             (\<exists>hs. scans fasta b e hs
                   \<and> ss st' = ss st @ concat (map (located_lines other fasta ms) hs)))"
    assume body: "(let found = find_first_of fasta (CHR ''>'') b
      in if e \<le> found then Some (Inr st)
         else case locate fasta found of
              (name_begin, name_end, sequence_begin, sequence_end) \<Rightarrow>
                case score_matrices other fasta ms name_begin name_end
                      sequence_begin sequence_end st of
                Inl e \<Rightarrow> Some (Inl e)
                | Inr st' \<Rightarrow> f other fasta ms (size_add sequence_end 1) e st') = Some y"
    show "length fasta < npos \<longrightarrow> e \<le> npos \<longrightarrow> (\<forall>m \<in> set ms. matrix_size m \<le> npos) \<longrightarrow>
          (\<forall>st'. y = Inr st' \<longrightarrow>
             (\<exists>hs. scans fasta b e hs
                   \<and> ss st' = ss st @ concat (map (located_lines other fasta ms) hs)))"
    proof (intro impI allI)
      fix st'
      assume len: "length fasta < npos" and reg: "e \<le> npos"
        and ws: "\<forall>m \<in> set ms. matrix_size m \<le> npos" and y: "y = Inr st'"
      let ?found = "find_first_of fasta (CHR ''>'') b"
      show "\<exists>hs. scans fasta b e hs
                 \<and> ss st' = ss st @ concat (map (located_lines other fasta ms) hs)"
      proof (cases "e \<le> ?found")
        case True
        with body y have "st' = st" by (simp add: Let_def)
        moreover have "scans fasta b e []" using True by (rule scans_done)
        ultimately show ?thesis by (intro exI [of _ "[]"]) simp
      next
        case False
        then have fe: "?found < e" by simp
        then have "?found \<noteq> npos" using reg by simp
        from find_first_of_found [OF this len] have fl: "?found < length fasta" by simp
        obtain nb ne sb se where loc: "locate fasta ?found = (nb, ne, sb, se)"
          by (cases "locate fasta ?found") auto
        from located [OF len fl loc]
        have l: "nb \<le> length fasta" "ne = npos \<or> (nb \<le> ne \<and> ne \<le> length fasta)"
          "sb \<le> length fasta" "se \<le> npos"
          by blast+
        from body False loc y obtain st1 where
          sm: "score_matrices other fasta ms nb ne sb se st = Inr st1"
          and rec: "f other fasta ms (size_add se 1) e st1 = Some (Inr st')"
          by (auto simp: Let_def split: sum.splits)
        from score_matrices_returns [OF len l(2,1,3,4) ws sm]
        have s1: "ss st1 = ss st @ record_lines other fasta ms nb ne sb se" .
        from IH [OF rec] len reg ws obtain hs where
          hs: "scans fasta (size_add se 1) e hs"
          "ss st' = ss st1 @ concat (map (located_lines other fasta ms) hs)"
          by blast
        have "scans fasta b e (?found # hs)"
          using refl fe loc hs(1) by (rule scans_step)
        moreover have "located_lines other fasta ms ?found
                       = record_lines other fasta ms nb ne sb se"
          by (simp add: located_lines_def loc)
        ultimately show ?thesis
          using s1 hs(2) by (intro exI [of _ "?found # hs"]) simp
      qed
    qed
  qed
  from this [OF ret] len reg ws show ?thesis by blast
qed

lemma run_worker_returns:
  assumes len: "length fasta < npos" and ws: "\<forall>m \<in> set ms. matrix_size m \<le> npos"
  shows "\<forall>(b, e) \<in> set regions. e \<le> npos \<Longrightarrow>
         run_worker other fasta ms regions st = Some (Inr st') \<Longrightarrow>
         \<exists>hss. list_all2 (\<lambda>(b, e) hs. scans fasta b e hs) regions hss
               \<and> ss st' = ss st @ concat (map (\<lambda>hs. concat (map (located_lines other fasta ms) hs))
                                              hss)"
proof (induction regions arbitrary: st)
  case Nil
  then show ?case by simp
next
  case (Cons r rs)
  obtain b e where r: "r = (b, e)" by (cases r)
  have e: "e \<le> npos" and rest: "\<forall>(b, e) \<in> set rs. e \<le> npos"
    using Cons.prems(1) r by auto
  from Cons.prems(2) r obtain st1 where
    s: "score other fasta ms b e st = Some (Inr st1)"
    and w: "run_worker other fasta ms rs st1 = Some (Inr st')"
    by (auto split: option.splits sum.splits)
  from score_returns [OF s len e ws] obtain hs where
    hs: "scans fasta b e hs" "ss st1 = ss st @ concat (map (located_lines other fasta ms) hs)"
    by blast
  from Cons.IH [OF rest w] obtain hss where
    hss: "list_all2 (\<lambda>(b, e) hs. scans fasta b e hs) rs hss"
    "ss st' = ss st1 @ concat (map (\<lambda>hs. concat (map (located_lines other fasta ms) hs)) hss)"
    by blast
  show ?case
    using hs hss r by (intro exI [of _ "hs # hss"]) simp
qed

text \<open>The scan of a region visits one list of markers only.\<close>

lemma scans_unique:
  "scans fasta b e hs \<Longrightarrow> scans fasta b e hs' \<Longrightarrow> hs = hs'"
proof (induction arbitrary: hs' rule: scans.induct)
  case (scans_done region_end fasta region_begin)
  from scans_done.prems scans_done.hyps show ?case
    by (cases rule: scans.cases) auto
next
  case (scans_step found fasta region_begin region_end name_begin name_end sequence_begin
      sequence_end hs)
  from scans_step.prems scans_step.hyps(1,2,3) scans_step.IH show ?case
    by (cases rule: scans.cases) auto
qed

section \<open>The windows of one matrix\<close>

lemma window_starts_iff:
  "b \<in> set (window_starts sequence_begin sequence_end w)
   \<longleftrightarrow> sequence_begin \<le> b \<and> b + w \<le> sequence_end"
  by (auto simp: window_starts_def)


lemma score_windows_record:
  assumes "name_begin \<le> name_end" "name_end \<le> length fasta" "length fasta < npos"
    "sequence_begin \<le> sequence_end" "sequence_end \<le> length fasta" "matrix_ok fasta m"
  shows "score_windows other fasta m name_begin name_end sequence_begin sequence_end
           sequence_begin (size_add sequence_begin (matrix_size m)) st
         = Inr (st\<lparr>ss := ss st @ matrix_lines other fasta m name_begin name_end
                                   sequence_begin sequence_end,
                   scored := scored st @ matrix_calls m name_begin sequence_begin sequence_end,
                   results := results st @ matrix_results fasta m sequence_begin sequence_end\<rparr>)"
proof -
  have "sequence_begin + matrix_size m < 2 ^ 64"
    using assms(4,5,6) by (simp add: matrix_ok_def npos_def)
  then have e0: "size_add sequence_begin (matrix_size m) = sequence_begin + matrix_size m"
    by (rule size_add_small)
  show ?thesis
    using score_windows_ok [OF assms(1,2,3,5,6), of sequence_begin sequence_begin other st]
    by (simp add: e0 matrix_lines_def matrix_calls_def matrix_results_def window_starts_def)
qed


lemma window_line_in_matrix_lines:
  assumes "b \<in> set (window_starts sequence_begin sequence_end (matrix_size m))"
  shows "window_line other fasta m name_begin name_end sequence_begin b
           \<in> set (matrix_lines other fasta m name_begin name_end sequence_begin sequence_end)
         \<longleftrightarrow> window_pvalue fasta m b < 1 / 1000"
proof
  assume "window_pvalue fasta m b < 1 / 1000"
  with assms show "window_line other fasta m name_begin name_end sequence_begin b
           \<in> set (matrix_lines other fasta m name_begin name_end sequence_begin sequence_end)"
    by (simp add: matrix_lines_def)
next
  assume "window_line other fasta m name_begin name_end sequence_begin b
           \<in> set (matrix_lines other fasta m name_begin name_end sequence_begin sequence_end)"
  then obtain b' where b': "b' \<in> set (window_starts sequence_begin sequence_end (matrix_size m))"
    "window_pvalue fasta m b' < 1 / 1000"
    "window_line other fasta m name_begin name_end sequence_begin b'
     = window_line other fasta m name_begin name_end sequence_begin b"
    by (auto simp: matrix_lines_def)
  from b'(3) have "b' - sequence_begin + 1 = b - sequence_begin + 1"
    by (simp add: window_line_def)
  moreover have "sequence_begin \<le> b'" "sequence_begin \<le> b"
    using b'(1) assms by (simp_all add: window_starts_iff)
  ultimately have "b' = b" by arith
  with b'(2) show "window_pvalue fasta m b < 1 / 1000" by simp
qed

lemma matrix_ok_threshold: "matrix_ok ac_fasta threshold_matrix"
  by (simp add: matrix_ok_def threshold_matrix_def ac_fasta_def npos_def)

lemma threshold_lines:
  "matrix_lines (\<lambda>c. c) ac_fasta threshold_matrix 1 2 3 5
   = [\<lparr>pattern_name = ''edge'', sequence_name = ''s'', sequence_start = 2, sequence_stop = 2,
       strand = CHR ''+'', scaled = 1, pvalue = 9999 / 10000000, matched_sequence = ''C''\<rparr>]"
  by code_simp

lemma threshold_pvalues:
  "window_pvalue ac_fasta threshold_matrix 3 = 1 / 1000"
  "window_pvalue ac_fasta threshold_matrix 4 = 9999 / 10000000"
  by code_simp+

lemma complement_bases:
  "complement other (CHR ''A'') = CHR ''T''" "complement other (CHR ''T'') = CHR ''A''"
  "complement other (CHR ''C'') = CHR ''G''" "complement other (CHR ''G'') = CHR ''C''"
  by (simp_all add: complement_def)



section \<open>Partitionings and the records of a regular buffer\<close>

lemma headers_append:
  assumes "a \<le> e" "e \<le> n"
  shows "headers fasta a e @ headers fasta e n = headers fasta a n"
proof -
  have "[a ..< n] = [a ..< e] @ [e ..< n]"
    using assms by (metis le_Suc_ex upt_add_eq_append)
  then show ?thesis by (simp add: headers_def)
qed

lemma contiguous_bounds:
  "contiguous a regions n \<Longrightarrow> a \<le> n \<and> (\<forall>(b, e) \<in> set regions. a \<le> b \<and> b \<le> e \<and> e \<le> n)"
proof (induction regions arbitrary: a)
  case Nil
  then show ?case by simp
next
  case (Cons r rs)
  obtain b e where r: "r = (b, e)" by (cases r)
  from Cons.prems r have c: "b = a" "b \<le> e" "contiguous e rs n" by simp_all
  from Cons.IH [OF c(3)] have "e \<le> n" "\<forall>(b', e') \<in> set rs. e \<le> b' \<and> b' \<le> e' \<and> e' \<le> n"
    by simp_all
  with c r show ?case by auto
qed

lemma contiguous_headers:
  "contiguous a regions n \<Longrightarrow>
   concat (map (\<lambda>(b, e). headers fasta b e) regions) = headers fasta a n"
proof (induction regions arbitrary: a)
  case Nil
  then show ?case by (simp add: headers_def)
next
  case (Cons r rs)
  obtain b e where r: "r = (b, e)" by (cases r)
  from Cons.prems r have c: "b = a" "b \<le> e" "contiguous e rs n" by simp_all
  from contiguous_bounds [OF c(3)] have "e \<le> n" by simp
  with c r Cons.IH [OF c(3)] show ?case by (simp add: headers_append)
qed

lemma headers_in_region:
  "h \<in> set (headers fasta b e) \<longleftrightarrow> b \<le> h \<and> h < e \<and> fasta ! h = CHR ''>''"
  by (auto simp: headers_def)

lemma spans_calls_window:
  assumes "record_spans fasta q = (nb, ne, sb, se)" "c \<in> set (spans_calls fasta ms q)"
  shows "\<exists>nm b e. c = (q, nm, b, e) \<and> sb \<le> b \<and> e \<le> se"
proof -
  have "nb = Suc q" using assms(1) by (auto simp: record_spans_def Let_def)
  then have "nb - 1 = q" by simp
  with assms(2) show ?thesis
    by (auto simp: spans_calls_def assms(1) record_calls_def matrix_calls_def window_starts_iff)
qed

lemma regular_records_apart:
  assumes "regular_fasta fasta" "p < q" "q < length fasta"
    "fasta ! p = CHR ''>''" "fasta ! q = CHR ''>''"
    "record_spans fasta p = (nb, ne, sb, se)"
  shows "se < q"
proof (rule ccontr)
  assume "\<not> se < q"
  then have "q \<le> se" by simp
  moreover have "p < length fasta" using assms(2,3) by simp
  from regular_spans [OF assms(1) this assms(4,6)]
  have "\<forall>j. p < j \<and> j \<le> se \<longrightarrow> fasta ! j \<noteq> CHR ''>''" by blast
  ultimately show False using assms(2,5) by blast
qed

lemma window_in_one_record:
  assumes "regular_fasta fasta" "p < length fasta" "q < length fasta"
    "fasta ! p = CHR ''>''" "fasta ! q = CHR ''>''"
    "c \<in> set (spans_calls fasta ms q)" "window_in_record fasta p c"
  shows "p = q"
proof -
  obtain nbp nep sbp sep where sp: "record_spans fasta p = (nbp, nep, sbp, sep)"
    by (cases "record_spans fasta p") auto
  obtain nbq neq sbq seq where sq: "record_spans fasta q = (nbq, neq, sbq, seq)"
    by (cases "record_spans fasta q") auto
  from spans_calls_window [OF sq assms(6)] obtain nm b e where
    c: "c = (q, nm, b, e)" "sbq \<le> b" "e \<le> seq"
    by blast
  have be: "b \<le> e"
    using assms(6) c(1)
    by (auto simp: spans_calls_def sq record_calls_def matrix_calls_def)
  from assms(7) c(1) have w: "sbp \<le> b" "e \<le> sep"
    by (simp_all add: window_in_record_def sp)
  from regular_spans [OF assms(1,2,4) sp] have rp: "p < sbp" by simp
  from regular_spans [OF assms(1,3,5) sq] have rq: "q < sbq" by simp
  show ?thesis
  proof (rule ccontr)
    assume "p \<noteq> q"
    then consider "p < q" | "q < p" by arith
    then show False
    proof cases
      case 1
      from regular_records_apart [OF assms(1) 1 assms(3,4,5) sp] have "sep < q" .
      with rq c(2) be w(2) show False by simp
    next
      case 2
      from regular_records_apart [OF assms(1) 2 assms(2,5,4) sq] have "seq < p" .
      with rp w(1) be c(3) show False by simp
    qed
  qed
qed

lemma concat_regions:
  "concat (map (\<lambda>(b, e). concat (map f (headers fasta b e))) regions)
   = concat (map f (concat (map (\<lambda>(b, e). headers fasta b e) regions)))"
  by (induction regions) auto

lemma regular_two: "regular_fasta two_fasta"
  by code_simp

lemma matrix_ok_any: "length fasta < 2 ^ 63 \<Longrightarrow> matrix_ok fasta (any_matrix nm rc)"
  by (simp add: matrix_ok_def any_matrix_def npos_def)

lemma expected_states:
  "list_all2 (\<lambda>(b, e) st. st = expected_scan other fasta ms b e) regions sts \<Longrightarrow>
   concat (map scored sts)
     = concat (map (\<lambda>(b, e). concat (map (spans_calls fasta ms) (headers fasta b e))) regions)
   \<and> concat (map ss sts)
     = concat (map (\<lambda>(b, e). concat (map (spans_lines other fasta ms) (headers fasta b e))) regions)"
  by (induction regions sts rule: list_all2_induct) (auto simp: expected_scan_def)

section \<open>Window coverage\<close>



section \<open>The significance threshold\<close>

text \<open>
  Claim C5. A match is emitted for an evaluated window if and only if the p-value
  looked up for it is strictly less than 0.001: the lines that the inner loop
  appends are those of the windows below the threshold, in window order. A window
  whose p-value is 0.001 exactly gets no line; a window whose p-value is 0.0009999
  gets one.
\<close>

theorem threshold_strict:
  assumes "name_begin \<le> name_end" "name_end \<le> length fasta" "length fasta < npos"
    "sequence_begin \<le> sequence_end" "sequence_end \<le> length fasta" "matrix_ok fasta m"
  shows "\<exists>st'. score_windows other fasta m name_begin name_end sequence_begin sequence_end
                 sequence_begin (size_add sequence_begin (matrix_size m)) st = Inr st'
          \<and> ss st' = ss st @ map (window_line other fasta m name_begin name_end sequence_begin)
                               (filter (\<lambda>b. window_pvalue fasta m b < 1 / 1000)
                                  (window_starts sequence_begin sequence_end (matrix_size m)))
          \<and> (\<forall>b \<in> set (window_starts sequence_begin sequence_end (matrix_size m)).
                (window_line other fasta m name_begin name_end sequence_begin b
                   \<in> set (matrix_lines other fasta m name_begin name_end
                             sequence_begin sequence_end)
                 \<longleftrightarrow> window_pvalue fasta m b < 1 / 1000)
                \<and> (window_pvalue fasta m b = 1 / 1000 \<longrightarrow>
                     window_line other fasta m name_begin name_end sequence_begin b
                       \<notin> set (matrix_lines other fasta m name_begin name_end
                                 sequence_begin sequence_end))
                \<and> (window_pvalue fasta m b = 9999 / 10000000 \<longrightarrow>
                     window_line other fasta m name_begin name_end sequence_begin b
                       \<in> set (matrix_lines other fasta m name_begin name_end
                                 sequence_begin sequence_end)))"
proof -
  have run: "score_windows other fasta m name_begin name_end sequence_begin sequence_end
               sequence_begin (size_add sequence_begin (matrix_size m)) st
             = Inr (st\<lparr>ss := ss st @ matrix_lines other fasta m name_begin name_end
                                       sequence_begin sequence_end,
                       scored := scored st @ matrix_calls m name_begin sequence_begin sequence_end,
                       results := results st @ matrix_results fasta m sequence_begin sequence_end\<rparr>)"
    using assms by (rule score_windows_record)
  have edge: "\<not> (1 / 1000 :: rat) < 1 / 1000" "(9999 / 10000000 :: rat) < 1 / 1000"
    by simp_all
  have "\<forall>b \<in> set (window_starts sequence_begin sequence_end (matrix_size m)).
          (window_line other fasta m name_begin name_end sequence_begin b
             \<in> set (matrix_lines other fasta m name_begin name_end sequence_begin sequence_end)
           \<longleftrightarrow> window_pvalue fasta m b < 1 / 1000)
          \<and> (window_pvalue fasta m b = 1 / 1000 \<longrightarrow>
               window_line other fasta m name_begin name_end sequence_begin b
                 \<notin> set (matrix_lines other fasta m name_begin name_end
                           sequence_begin sequence_end))
          \<and> (window_pvalue fasta m b = 9999 / 10000000 \<longrightarrow>
               window_line other fasta m name_begin name_end sequence_begin b
                 \<in> set (matrix_lines other fasta m name_begin name_end
                           sequence_begin sequence_end))"
    using window_line_in_matrix_lines [of _ sequence_begin sequence_end m other fasta
        name_begin name_end] edge
    by metis
  then show ?thesis using run by (simp add: matrix_lines_def)
qed

theorem threshold_strict_witness:
  "(1::nat) \<le> 2 \<and> 2 \<le> length ac_fasta \<and> length ac_fasta < npos \<and> (3::nat) \<le> 5
   \<and> 5 \<le> length ac_fasta \<and> matrix_ok ac_fasta threshold_matrix
   \<and> window_pvalue ac_fasta threshold_matrix 3 = 1 / 1000
   \<and> window_pvalue ac_fasta threshold_matrix 4 = 9999 / 10000000
   \<and> (\<exists>st'. score_windows (\<lambda>c. c) ac_fasta threshold_matrix 1 2 3 5 3
                 (size_add 3 (matrix_size threshold_matrix)) fresh = Inr st'
          \<and> ss st' = [\<lparr>pattern_name = ''edge'', sequence_name = ''s'', sequence_start = 2,
                         sequence_stop = 2, strand = CHR ''+'', scaled = 1,
                         pvalue = 9999 / 10000000, matched_sequence = ''C''\<rparr>])"
proof -
  have h: "(1::nat) \<le> 2" "2 \<le> length ac_fasta" "length ac_fasta < npos" "(3::nat) \<le> 5"
    "5 \<le> length ac_fasta"
    by (simp_all add: ac_fasta_def npos_def)
  from threshold_strict [OF h matrix_ok_threshold, of "\<lambda>c. c" fresh]
  obtain st' where "score_windows (\<lambda>c. c) ac_fasta threshold_matrix 1 2 3 5 3
                 (size_add 3 (matrix_size threshold_matrix)) fresh = Inr st'"
    "ss st' = ss fresh @ map (window_line (\<lambda>c. c) ac_fasta threshold_matrix 1 2 3)
                               (filter (\<lambda>b. window_pvalue ac_fasta threshold_matrix b < 1 / 1000)
                                  (window_starts 3 5 (matrix_size threshold_matrix)))"
    by blast
  then show ?thesis
    using h matrix_ok_threshold threshold_pvalues threshold_lines
    by (auto simp: matrix_lines_def fresh_def)
qed

section \<open>Rendering the matched sequence\<close>

text \<open>
  Claim C8. The matched-sequence field of an emitted match of a reverse-complement
  matrix is the window walked from its last byte to its first, each byte replaced by
  its complement, so that the window \<open>AAGG\<close> renders as \<open>CCTT\<close>; for any other
  matrix it is the window's bytes in forward order. The complement of the four
  bases is taken from the design, since the source files do not hold it.
\<close>

theorem matched_sequence_rendering:
  assumes "name_begin \<le> name_end" "name_end \<le> length fasta" "length fasta < npos"
    "sequence_begin \<le> b" "b + matrix_size m \<le> length fasta"
    "is_reverse_complement m \<longrightarrow> 0 < matrix_size m"
  shows "\<exists>line. format_match other fasta m name_begin name_end sequence_begin b
                   (b + matrix_size m) (detail_score m fasta b (b + matrix_size m))
                   (window_pvalue fasta m b) = Inr line
          \<and> render_sequence other fasta m b = Inr (matched_sequence line)
          \<and> matched_sequence line
              = (if is_reverse_complement m
                 then map (complement other) (rev (take (matrix_size m) (drop b fasta)))
                 else take (matrix_size m) (drop b fasta))
          \<and> (is_reverse_complement m \<and> take (matrix_size m) (drop b fasta) = ''AAGG''
               \<longrightarrow> matched_sequence line = ''CCTT'')"
proof -
  let ?line = "window_line other fasta m name_begin name_end sequence_begin b"
  have fm: "format_match other fasta m name_begin name_end sequence_begin b
              (b + matrix_size m) (detail_score m fasta b (b + matrix_size m))
              (window_pvalue fasta m b) = Inr ?line"
    using assms by (rule format_match_ok)
  have rs: "render_sequence other fasta m b = Inr (matched_sequence ?line)"
    using render_sequence_ok [OF assms(3,5,6), of other] by (simp add: window_line_def)
  have ms: "matched_sequence ?line
            = (if is_reverse_complement m
               then map (complement other) (rev (take (matrix_size m) (drop b fasta)))
               else take (matrix_size m) (drop b fasta))"
    by (simp add: window_line_def window_bytes_def)
  have "is_reverse_complement m \<and> take (matrix_size m) (drop b fasta) = ''AAGG''
        \<longrightarrow> matched_sequence ?line = ''CCTT''"
    using ms by (simp add: complement_bases)
  with fm rs ms show ?thesis by blast
qed

theorem matched_sequence_rendering_witness:
  "(0::nat) \<le> 0 \<and> 0 \<le> length ''AAGG'' \<and> length ''AAGG'' < npos
   \<and> 0 + matrix_size aagg_matrix \<le> length ''AAGG''
   \<and> 0 < matrix_size aagg_matrix
   \<and> is_reverse_complement aagg_matrix
   \<and> take (matrix_size aagg_matrix) (drop 0 ''AAGG'') = ''AAGG''
   \<and> (\<exists>line. format_match (\<lambda>c. c) ''AAGG'' aagg_matrix 0 0 0 0 (0 + matrix_size aagg_matrix)
                  (detail_score aagg_matrix ''AAGG'' 0 (0 + matrix_size aagg_matrix))
                  (window_pvalue ''AAGG'' aagg_matrix 0) = Inr line
          \<and> matched_sequence line = ''CCTT'')"
proof -
  have h: "(0::nat) \<le> 0" "0 \<le> length ''AAGG''" "length ''AAGG'' < npos" "(0::nat) \<le> 0"
    "0 + matrix_size aagg_matrix \<le> length ''AAGG''"
    "is_reverse_complement aagg_matrix \<longrightarrow> 0 < matrix_size aagg_matrix"
    by (simp_all add: aagg_matrix_def npos_def)
  have w: "is_reverse_complement aagg_matrix"
    "take (matrix_size aagg_matrix) (drop 0 ''AAGG'') = ''AAGG''"
    by (simp_all add: aagg_matrix_def)
  from matched_sequence_rendering [OF h, of "\<lambda>c. c"] w
  have "\<exists>line. format_match (\<lambda>c. c) ''AAGG'' aagg_matrix 0 0 0 0 (0 + matrix_size aagg_matrix)
                  (detail_score aagg_matrix ''AAGG'' 0 (0 + matrix_size aagg_matrix))
                  (window_pvalue ''AAGG'' aagg_matrix 0) = Inr line
          \<and> matched_sequence line = ''CCTT''"
    by blast
  moreover have "0 < matrix_size aagg_matrix" by (simp add: aagg_matrix_def)
  ultimately show ?thesis using h(1,2,3,5) w by (intro conjI)
qed

section \<open>A final record without a line break\<close>

text \<open>
  Claim C3. When the final record of the buffer lacks a trailing line break, the
  scan should take the end of the buffer as the end of the sequence, evaluate only
  windows inside the buffer and terminate. The source does not: the search for the
  line break returns \<open>npos\<close>, the loop test \<open>end <= sequence_end\<close> holds for every
  window, and the second window of the 10-byte buffer below ends at offset 11.
\<close>

theorem unterminated_scan_leaves_buffer:
  "length unterminated_fasta = 10
   \<and> locate unterminated_fasta 0 = (1, 5, 6, npos)
   \<and> score (\<lambda>c. c) unterminated_fasta [acgt_matrix] 0 10 fresh = Some (Inl OutOfBounds)"
  by code_simp

text \<open>
  With no matrix to score, no window is read, and the same buffer shows the other
  outcome: \<open>sequence_end + 1\<close> wraps to 0, the cursor is back at the start of the
  buffer, and the scan never returns.
\<close>

lemma unterminated_located:
  "find_first_of unterminated_fasta (CHR ''>'') 0 = 0"
  "locate unterminated_fasta 0 = (1, 5, 6, npos)"
  "size_add npos 1 = 0"
  by code_simp+

lemma unterminated_never_returns:
  "score other unterminated_fasta [] 0 10 st = None"
proof -
  have never: "\<not> (fasta = unterminated_fasta \<and> ms = [] \<and> b = 0 \<and> e = 10)"
    if ret: "score other fasta ms b e st = Some y" for other fasta ms b e st y
  proof (rule score.raw_induct
      [where P = "\<lambda>other fasta ms b e st y.
                    \<not> (fasta = unterminated_fasta \<and> ms = [] \<and> b = 0 \<and> e = (10::nat))",
        OF _ ret])
    fix f :: "(char \<Rightarrow> char) \<Rightarrow> string \<Rightarrow> ScoreMatrix list \<Rightarrow> nat \<Rightarrow> nat \<Rightarrow> Scorer
                \<Rightarrow> (error + Scorer) option"
    fix other fasta ms b e st y
    assume IH: "\<And>other fasta ms b e st y. f other fasta ms b e st = Some y \<Longrightarrow>
                  \<not> (fasta = unterminated_fasta \<and> ms = [] \<and> b = 0 \<and> e = (10::nat))"
    assume body: "(let found = find_first_of fasta (CHR ''>'') b
      in if e \<le> found then Some (Inr st)
         else case locate fasta found of
              (name_begin, name_end, sequence_begin, sequence_end) \<Rightarrow>
                case score_matrices other fasta ms name_begin name_end
                      sequence_begin sequence_end st of
                Inl e \<Rightarrow> Some (Inl e)
                | Inr st' \<Rightarrow> f other fasta ms (size_add sequence_end 1) e st') = Some y"
    show "\<not> (fasta = unterminated_fasta \<and> ms = [] \<and> b = 0 \<and> e = (10::nat))"
    proof
      assume c: "fasta = unterminated_fasta \<and> ms = [] \<and> b = 0 \<and> e = 10"
      have "size_add npos (Suc 0) = 0" using unterminated_located(3) by simp
      with c body have "f other unterminated_fasta [] 0 10 st = Some y"
        by (simp add: unterminated_located)
      from IH [OF this] show False by simp
    qed
  qed
  show ?thesis
  proof (cases "score other unterminated_fasta [] 0 10 st")
    case None
    then show ?thesis .
  next
    case (Some y)
    from never [OF this] show ?thesis by simp
  qed
qed

section \<open>Name and sequence spans\<close>

text \<open>
  Claim C7. The name span should be the bytes strictly between the \<open>>\<close> marker and
  the first line break after it, and the sequence span the bytes from the byte after
  that line break up to the next line break. The source searches for the line break
  from \<open>name_begin + 1\<close> on, so for a record with an empty name it passes over the
  header's own line break: in the buffer below the name is rendered as a line break
  followed by \<open>ACGT\<close>, and the sequence span is the second sequence line \<open>AC\<close>.
\<close>

theorem empty_name_misread:
  "locate nameless_fasta 0 = (1, 6, 7, 9)
   \<and> region_lines (\<lambda>c. c) nameless_fasta [any_matrix ''p'' False] 0 10
     = Some [\<lparr>pattern_name = ''p'', sequence_name = CHR 0x0A # ''ACGT'', sequence_start = 1,
              sequence_stop = 1, strand = CHR ''+'', scaled = 0, pvalue = 1 / 10000,
              matched_sequence = ''A''\<rparr>,
             \<lparr>pattern_name = ''p'', sequence_name = CHR 0x0A # ''ACGT'', sequence_start = 2,
              sequence_stop = 2, strand = CHR ''+'', scaled = 0, pvalue = 1 / 10000,
              matched_sequence = ''C''\<rparr>]"
  by code_simp

text \<open>
  Where the name and the sequence line both have a first byte that is no line break,
  and both line breaks exist, the spans are the ones described: each ends at the
  first line break at or after its first byte.
\<close>

lemma locate_spans:
  assumes "length fasta < npos" "h < length fasta" "locate fasta h = (nb, ne, sb, se)"
    "ne \<noteq> npos" "se \<noteq> npos" "fasta ! Suc h \<noteq> CHR 0x0A" "fasta ! Suc ne \<noteq> CHR 0x0A"
  shows "nb = Suc h \<and> sb = Suc ne \<and> ne < length fasta \<and> se < length fasta
         \<and> fasta ! ne = CHR 0x0A \<and> (\<forall>j. nb \<le> j \<and> j < ne \<longrightarrow> fasta ! j \<noteq> CHR 0x0A)
         \<and> fasta ! se = CHR 0x0A \<and> (\<forall>j. sb \<le> j \<and> j < se \<longrightarrow> fasta ! j \<noteq> CHR 0x0A)"
proof -
  have lt: "length fasta < 2 ^ 64 - 1" using assms(1) by (simp add: npos_def)
  note eqs = locate_eqs [OF assms(3)]
  have nb: "nb = Suc h" using eqs(1) lt assms(2) by (simp add: size_add_def)
  have nb1: "size_add nb 1 = Suc nb" using nb lt assms(2) by (simp add: size_add_def)
  have ne: "ne = find_first_of fasta (CHR 0x0A) (Suc nb)" using eqs(2) nb1 by simp
  from find_first_of_found [of fasta "CHR 0x0A" "Suc nb"] ne assms(1,4)
  have ne_b: "Suc nb \<le> ne" "ne < length fasta" "fasta ! ne = CHR 0x0A"
    "\<forall>j. Suc nb \<le> j \<and> j < ne \<longrightarrow> fasta ! j \<noteq> CHR 0x0A"
    by simp_all
  have name: "\<forall>j. nb \<le> j \<and> j < ne \<longrightarrow> fasta ! j \<noteq> CHR 0x0A"
    using ne_b(4) assms(6) nb by (metis Suc_leI le_neq_implies_less)
  have sb: "sb = Suc ne" using eqs(3) ne_b lt by (simp add: size_add_def)
  have sb1: "size_add sb 1 = Suc sb" using sb ne_b lt by (simp add: size_add_def)
  have se: "se = find_first_of fasta (CHR 0x0A) (Suc sb)" using eqs(4) sb1 by simp
  from find_first_of_found [of fasta "CHR 0x0A" "Suc sb"] se assms(1,5)
  have se_b: "Suc sb \<le> se" "se < length fasta" "fasta ! se = CHR 0x0A"
    "\<forall>j. Suc sb \<le> j \<and> j < se \<longrightarrow> fasta ! j \<noteq> CHR 0x0A"
    by simp_all
  have seq: "\<forall>j. sb \<le> j \<and> j < se \<longrightarrow> fasta ! j \<noteq> CHR 0x0A"
    using se_b(4) assms(7) sb by (metis Suc_leI le_neq_implies_less)
  show ?thesis using nb sb ne_b se_b name seq by simp
qed

section \<open>The range that is partitioned\<close>

text \<open>
  Claim C10. The ranges dispatched for a buffer of length \<open>N\<close> should cover
  \<open>[0, N)\<close>. The range given to the scheduler has \<open>int\<close> bounds: for a buffer of
  \<open>2^31\<close> bytes its end is \<open>-2^31\<close>, below its begin, so the range is empty and no
  byte of the buffer lies in any subrange of it.
\<close>

theorem large_buffer_range_empty:
  "my_begin (fasta_range (replicate (2 ^ 31) (CHR ''A''))) = 0
   \<and> my_end (fasta_range (replicate (2 ^ 31) (CHR ''A''))) = - (2 ^ 31)"
  by (simp add: fasta_range_def int_of_size_def)

text \<open>
  Whatever the buffer's length, the end of the range is below \<open>2^31\<close>: no subrange
  reaches a byte at or after that offset.
\<close>

lemma int_of_size_less: "int_of_size n < 2 ^ 31"
proof -
  have "n mod 2 ^ 32 < 2 ^ 32" by simp
  then have "int (n mod 2 ^ 32) < 2 ^ 32" by (metis of_nat_less_iff of_nat_numeral of_nat_power)
  then show ?thesis unfolding int_of_size_def Let_def by (simp split: if_splits) linarith
qed

lemma fasta_range_end_less: "my_end (fasta_range fasta) < 2 ^ 31"
  using int_of_size_less [of "length fasta"] by (simp add: fasta_range_def)

section \<open>Files that cannot be opened\<close>

text \<open>
  Claim C9, as amended. If the input FASTA file cannot be opened for reading, the
  scan fails with a fatal error before any region is dispatched to a worker, and no
  scanning work is performed, whatever the schedule.
\<close>

theorem unreadable_input_aborts:
  "readable fs fasta_file_path = None \<Longrightarrow>
   process_fasta fs other matrices fasta_file_path output_file_path schedule
   = Some (Inl runtime_error)"
  by (simp add: process_fasta_def get_file_contents_def)

theorem unreadable_input_aborts_witness:
  "readable read_only_fs ''missing.fa'' = None
   \<and> process_fasta read_only_fs (\<lambda>c. c) [acgt_matrix] ''missing.fa'' ''out.txt'' [[(0, 15)]]
     = Some (Inl runtime_error)"
proof -
  have h: "readable read_only_fs ''missing.fa'' = None" by (simp add: read_only_fs_def)
  from unreadable_input_aborts [OF h] h show ?thesis by simp
qed

text \<open>
  The claim as stated also covers the output path. The source opens the output
  stream without a test: with a readable input and an output path that cannot be
  opened, the region is dispatched, every window is scored, no error is raised and
  nothing is written.
\<close>

theorem unwritable_output_still_scans:
  "readable read_only_fs ''in.fa'' = Some seq1_fasta
   \<and> \<not> writable read_only_fs ''out.txt''
   \<and> process_fasta read_only_fs (\<lambda>c. c) [acgt_matrix] ''in.fa'' ''out.txt'' [[(0, 15)]]
     = Some (Inr \<lparr>written = None,
                  work = [(0, ''acgt'', 6, 10), (0, ''acgt'', 7, 11), (0, ''acgt'', 8, 12),
                          (0, ''acgt'', 9, 13), (0, ''acgt'', 10, 14)]\<rparr>)"
  by code_simp

section \<open>The order of a worker's lines\<close>

text \<open>
  Claim C6, as amended. Within a single worker whose scans return, every read
  inside the buffer, the assertion and every write successful, the match lines are
  appended to its buffer in exactly this order: the regions in the order the worker
  receives them, within a region the records in the order the scan visits them,
  within a record the matrices in matrix-list order, and within a matrix the
  windows in position order. The buffer has fewer than \<open>npos\<close> bytes; region ends
  and matrix widths are \<open>size_t\<close> values.
\<close>

theorem lines_in_matrix_order:
  assumes "run_worker other fasta ms regions st = Some (Inr st')"
    "length fasta < npos" "\<forall>(b, e) \<in> set regions. e \<le> npos"
    "\<forall>m \<in> set ms. matrix_size m \<le> npos"
  shows "\<exists>hss. list_all2 (\<lambda>(b, e) hs. scans fasta b e hs) regions hss
          \<and> ss st' = ss st @
               concat (map (\<lambda>hs.
                 concat (map (\<lambda>h.
                   case locate fasta h of
                     (name_begin, name_end, sequence_begin, sequence_end) \<Rightarrow>
                       concat (map (\<lambda>m.
                         map (window_line other fasta m name_begin name_end sequence_begin)
                           (filter (\<lambda>w. window_pvalue fasta m w < 1 / 1000)
                              (window_starts sequence_begin sequence_end (matrix_size m))))
                         ms))
                   hs))
                 hss)"
proof -
  have "located_lines other fasta ms
        = (\<lambda>h. case locate fasta h of
                  (name_begin, name_end, sequence_begin, sequence_end) \<Rightarrow>
                    concat (map (\<lambda>m.
                      map (window_line other fasta m name_begin name_end sequence_begin)
                        (filter (\<lambda>w. window_pvalue fasta m w < 1 / 1000)
                           (window_starts sequence_begin sequence_end (matrix_size m))))
                      ms))"
    by (rule ext) (simp add: located_lines_def record_lines_def matrix_lines_def split: prod.splits)
  then show ?thesis
    using run_worker_returns [OF assms(2,4,3,1)] by simp
qed

text \<open>
  The theorem at a buffer with a \<open>>\<close> byte inside the name, scanned as one region
  with two matrices that match every window.
\<close>

theorem lines_in_matrix_order_witness:
  "length nested_fasta < npos \<and> (8::nat) \<le> npos
   \<and> matrix_size (any_matrix ''p'' False) \<le> npos \<and> matrix_size (any_matrix ''q'' True) \<le> npos
   \<and> (\<exists>st' hss. run_worker (\<lambda>c. c) nested_fasta [any_matrix ''p'' False, any_matrix ''q'' True]
                     [(0, 8)] fresh = Some (Inr st')
          \<and> list_all2 (\<lambda>(b, e) hs. scans nested_fasta b e hs) [(0, 8)] hss
          \<and> map (\<lambda>l. (pattern_name l, sequence_name l, sequence_start l)) (ss st')
              = [(''p'', ''a>b'', 1), (''p'', ''a>b'', 2), (''q'', ''a>b'', 1), (''q'', ''a>b'', 2)])"
proof -
  have h: "length nested_fasta < npos" "(8::nat) \<le> npos"
    "matrix_size (any_matrix ''p'' False) \<le> npos" "matrix_size (any_matrix ''q'' True) \<le> npos"
    by (simp_all add: nested_fasta_def any_matrix_def npos_def)
  have rg: "\<forall>(b, e) \<in> set [(0::nat, 8::nat)]. e \<le> npos" using h(2) by simp
  have ws: "\<forall>m \<in> set [any_matrix ''p'' False, any_matrix ''q'' True]. matrix_size m \<le> npos"
    using h(3,4) by simp
  have ev: "run_worker (\<lambda>c. c) nested_fasta [any_matrix ''p'' False, any_matrix ''q'' True]
              [(0, 8)] fresh
            = Some (Inr \<lparr>ss = located_lines (\<lambda>c. c) nested_fasta
                                 [any_matrix ''p'' False, any_matrix ''q'' True] 0,
                         scored = [(0, ''p'', 5, 6), (0, ''p'', 6, 7), (0, ''q'', 5, 6),
                                   (0, ''q'', 6, 7)],
                         results = [0, 0, 0, 0]\<rparr>)"
    by code_simp
  have ord: "map (\<lambda>l. (pattern_name l, sequence_name l, sequence_start l))
               (located_lines (\<lambda>c. c) nested_fasta
                  [any_matrix ''p'' False, any_matrix ''q'' True] 0)
             = [(''p'', ''a>b'', 1), (''p'', ''a>b'', 2), (''q'', ''a>b'', 1), (''q'', ''a>b'', 2)]"
    by code_simp
  from lines_in_matrix_order [OF ev h(1) rg ws]
  obtain hss where hss: "list_all2 (\<lambda>(b, e) hs. scans nested_fasta b e hs) [(0, 8)] hss"
    by blast
  have "\<exists>st' hss. run_worker (\<lambda>c. c) nested_fasta [any_matrix ''p'' False, any_matrix ''q'' True]
                     [(0, 8)] fresh = Some (Inr st')
          \<and> list_all2 (\<lambda>(b, e) hs. scans nested_fasta b e hs) [(0, 8)] hss
          \<and> map (\<lambda>l. (pattern_name l, sequence_name l, sequence_start l)) (ss st')
              = [(''p'', ''a>b'', 1), (''p'', ''a>b'', 2), (''q'', ''a>b'', 1), (''q'', ''a>b'', 2)]"
  proof (intro exI conjI)
    show "run_worker (\<lambda>c. c) nested_fasta [any_matrix ''p'' False, any_matrix ''q'' True]
            [(0, 8)] fresh
          = Some (Inr \<lparr>ss = located_lines (\<lambda>c. c) nested_fasta
                               [any_matrix ''p'' False, any_matrix ''q'' True] 0,
                       scored = [(0, ''p'', 5, 6), (0, ''p'', 6, 7), (0, ''q'', 5, 6),
                                 (0, ''q'', 6, 7)],
                       results = [0, 0, 0, 0]\<rparr>)"
      by (rule ev)
    show "list_all2 (\<lambda>(b, e) hs. scans nested_fasta b e hs) [(0, 8)] hss"
      by (rule hss)
    show "map (\<lambda>l. (pattern_name l, sequence_name l, sequence_start l))
            (ss \<lparr>ss = located_lines (\<lambda>c. c) nested_fasta
                         [any_matrix ''p'' False, any_matrix ''q'' True] 0,
                 scored = [(0, ''p'', 5, 6), (0, ''p'', 6, 7), (0, ''q'', 5, 6),
                           (0, ''q'', 6, 7)],
                 results = [0, 0, 0, 0]\<rparr>)
          = [(''p'', ''a>b'', 1), (''p'', ''a>b'', 2), (''q'', ''a>b'', 1), (''q'', ''a>b'', 2)]"
      using ord by (simp only: Scorer.simps)
  qed
  with h show ?thesis by (intro conjI)
qed

text \<open>
  The claim as stated puts the window position before the matrix. With two matrices
  that both match at both windows of one record, the source emits both lines of the
  first matrix before the lines of the second.
\<close>

theorem matrix_major_not_window_major:
  "region_lines (\<lambda>c. c) ac_fasta [any_matrix ''p'' False, any_matrix ''q'' True] 0 6
   = Some (located_lines (\<lambda>c. c) ac_fasta [any_matrix ''p'' False, any_matrix ''q'' True] 0)
   \<and> region_lines (\<lambda>c. c) ac_fasta [any_matrix ''p'' False, any_matrix ''q'' True] 0 6
     \<noteq> Some (window_major_lines (\<lambda>c. c) ac_fasta
                [any_matrix ''p'' False, any_matrix ''q'' True] 0)"
  by code_simp

section \<open>Which worker scores a record\<close>

text \<open>
  Claim C1, as amended. Take a buffer of fewer than \<open>npos\<close> bytes in which every
  \<open>>\<close> byte is followed by a non-empty name and then a non-empty sequence line, each
  ended by a line break, with no other \<open>>\<close> byte before the line break of the
  sequence line; matrices whose scaled scores always index their p-value table,
  whose width added to the buffer's length does not exceed \<open>npos\<close>, and which have
  at least one column when they are reverse-complement; and any partitioning of the
  buffer into contiguous regions. Then each record is scored exactly once globally:
  the worker of a region returns having processed entirely (all matrices, all
  windows of the sequence line, each call with its score, each line) the records
  whose \<open>>\<close> byte lies in its region, in ascending order, and nothing else, also when
  a record's name and sequence bytes extend past the region's end, and whether its
  scorer is empty or holds the work of earlier regions; every \<open>>\<close> byte
  lies in one region, so the calls of all workers together are the calls of every
  record once; and a worker scores no window inside the sequence line of a record
  whose \<open>>\<close> byte lies outside its region.
\<close>

theorem each_record_scored_by_its_owner:
  assumes "regular_fasta fasta" "\<forall>m \<in> set ms. matrix_ok fasta m"
    "contiguous 0 regions (length fasta)"
  shows "owner_scores other fasta ms regions
         \<and> (\<forall>(b, e) \<in> set regions. \<forall>st.
               score other fasta ms b e st
               = Some (Inr (st\<lparr>ss := ss st @ ss (expected_scan other fasta ms b e),
                               scored := scored st @ scored (expected_scan other fasta ms b e),
                               results := results st
                                          @ results (expected_scan other fasta ms b e)\<rparr>)))
         \<and> concat (map (\<lambda>(b, e). headers fasta b e) regions) = headers fasta 0 (length fasta)
         \<and> (\<forall>sts. list_all2 (\<lambda>(b, e) st. score other fasta ms b e fresh = Some (Inr st))
                    regions sts \<longrightarrow>
                  concat (map scored sts)
                    = concat (map (spans_calls fasta ms) (headers fasta 0 (length fasta)))
                  \<and> concat (map ss sts)
                    = concat (map (spans_lines other fasta ms) (headers fasta 0 (length fasta))))
         \<and> (\<forall>(b, e) \<in> set regions. \<forall>st'.
               score other fasta ms b e fresh = Some (Inr st') \<longrightarrow>
               (\<forall>c \<in> set (scored st').
                  b \<le> fst c \<and> fst c < e \<and> fasta ! fst c = CHR ''>''
                  \<and> (\<forall>p \<in> set (headers fasta 0 (length fasta)).
                        window_in_record fasta p c \<longrightarrow> b \<le> p \<and> p < e)))"
proof -
  have bounds: "\<forall>(b, e) \<in> set regions. b \<le> e \<and> e \<le> length fasta"
    using contiguous_bounds [OF assms(3)] by auto
  have ret: "score other fasta ms b e fresh = Some (Inr (expected_scan other fasta ms b e))"
    if "(b, e) \<in> set regions" for b e
  proof -
    have "e \<le> length fasta" using bounds that by auto
    from score_ok [OF assms(1,2) this, of other b fresh] show ?thesis
      by (simp add: expected_scan_def fresh_def)
  qed
  have own: "owner_scores other fasta ms regions"
    using ret by (auto simp: owner_scores_def)
  have reuse: "\<forall>(b, e) \<in> set regions. \<forall>st.
                 score other fasta ms b e st
                 = Some (Inr (st\<lparr>ss := ss st @ ss (expected_scan other fasta ms b e),
                                 scored := scored st @ scored (expected_scan other fasta ms b e),
                                 results := results st
                                            @ results (expected_scan other fasta ms b e)\<rparr>))"
  proof (intro ballI allI, clarify)
    fix b e st
    assume "(b, e) \<in> set regions"
    then have "e \<le> length fasta" using bounds by auto
    from score_ok [OF assms(1,2) this, of other b st]
    show "score other fasta ms b e st
          = Some (Inr (st\<lparr>ss := ss st @ ss (expected_scan other fasta ms b e),
                          scored := scored st @ scored (expected_scan other fasta ms b e),
                          results := results st
                                     @ results (expected_scan other fasta ms b e)\<rparr>))"
      by (simp add: expected_scan_def)
  qed
  have part: "concat (map (\<lambda>(b, e). headers fasta b e) regions) = headers fasta 0 (length fasta)"
    using assms(3) by (rule contiguous_headers)
  have once: "concat (map scored sts)
                = concat (map (spans_calls fasta ms) (headers fasta 0 (length fasta)))
              \<and> concat (map ss sts)
                = concat (map (spans_lines other fasta ms) (headers fasta 0 (length fasta)))"
    if all: "list_all2 (\<lambda>(b, e) st. score other fasta ms b e fresh = Some (Inr st)) regions sts"
    for sts
  proof -
    have "list_all2 (\<lambda>(b, e) st. st = expected_scan other fasta ms b e) regions sts"
      using all
    proof (rule list.rel_mono_strong)
      fix r st
      assume r: "r \<in> set regions" and "st \<in> set sts"
        and p: "(\<lambda>(b, e) st. score other fasta ms b e fresh = Some (Inr st)) r st"
      obtain b e where be: "r = (b, e)" by (cases r)
      from p ret [of b e] r be
      show "(\<lambda>(b, e) st. st = expected_scan other fasta ms b e) r st" by simp
    qed
    from expected_states [OF this] show ?thesis
      by (simp only: concat_regions part)
  qed
  have calls: "b \<le> fst c \<and> fst c < e \<and> fasta ! fst c = CHR ''>''
               \<and> (\<forall>p \<in> set (headers fasta 0 (length fasta)).
                     window_in_record fasta p c \<longrightarrow> b \<le> p \<and> p < e)"
    if r: "(b, e) \<in> set regions" and s: "score other fasta ms b e fresh = Some (Inr st')"
      and c: "c \<in> set (scored st')" for b e st' c
  proof -
    have "st' = expected_scan other fasta ms b e" using ret [OF r] s by simp
    with c obtain q where q: "q \<in> set (headers fasta b e)" "c \<in> set (spans_calls fasta ms q)"
      by (auto simp: expected_scan_def)
    have qb: "b \<le> q" "q < e" "fasta ! q = CHR ''>''"
      using q(1) by (simp_all add: headers_in_region)
    have el: "e \<le> length fasta" using bounds r by auto
    then have ql: "q < length fasta" using qb(2) by simp
    obtain nb ne sb se where sq: "record_spans fasta q = (nb, ne, sb, se)"
      by (cases "record_spans fasta q") auto
    from spans_calls_window [OF sq q(2)] have tag: "fst c = q" by auto
    have "b \<le> p \<and> p < e"
      if p: "p \<in> set (headers fasta 0 (length fasta))" and w: "window_in_record fasta p c" for p
    proof -
      have pl: "p < length fasta" "fasta ! p = CHR ''>''"
        using p by (simp_all add: headers_in_region)
      from window_in_one_record [OF assms(1) pl(1) ql pl(2) qb(3) q(2) w]
      show ?thesis using qb by simp
    qed
    with tag qb show ?thesis by blast
  qed
  show ?thesis
    using own reuse part once calls by blast
qed

text \<open>
  The theorem at a buffer of two records, cut inside the sequence of the first.
\<close>

theorem each_record_scored_by_its_owner_witness:
  "regular_fasta two_fasta \<and> matrix_ok two_fasta (any_matrix ''p'' False)
   \<and> contiguous 0 [(0, 4), (4, 12)] (length two_fasta)
   \<and> owner_scores (\<lambda>c. c) two_fasta [any_matrix ''p'' False] [(0, 4), (4, 12)]
   \<and> region_calls (\<lambda>c. c) two_fasta [any_matrix ''p'' False] 0 4
     = Some [(0, ''p'', 3, 4), (0, ''p'', 4, 5)]
   \<and> region_calls (\<lambda>c. c) two_fasta [any_matrix ''p'' False] 4 12
     = Some [(6, ''p'', 9, 10), (6, ''p'', 10, 11)]"
proof -
  have len: "length two_fasta = 12" by (simp add: two_fasta_def)
  have ok: "\<forall>m \<in> set [any_matrix ''p'' False]. matrix_ok two_fasta m"
    by (simp add: matrix_ok_any len)
  have part: "contiguous 0 [(0, 4), (4, 12)] (length two_fasta)" by (simp add: len)
  have own: "owner_scores (\<lambda>c. c) two_fasta [any_matrix ''p'' False] [(0, 4), (4, 12)]"
    using each_record_scored_by_its_owner [OF regular_two ok part] by blast
  have h1: "scored (expected_scan (\<lambda>c. c) two_fasta [any_matrix ''p'' False] 0 4)
            = [(0, ''p'', 3, 4), (0, ''p'', 4, 5)]"
    by code_simp
  have h2: "scored (expected_scan (\<lambda>c. c) two_fasta [any_matrix ''p'' False] 4 12)
            = [(6, ''p'', 9, 10), (6, ''p'', 10, 11)]"
    by code_simp
  have r1: "region_calls (\<lambda>c. c) two_fasta [any_matrix ''p'' False] 0 4
            = Some [(0, ''p'', 3, 4), (0, ''p'', 4, 5)]"
    using own h1 by (simp add: owner_scores_def region_calls_def)
  have r2: "region_calls (\<lambda>c. c) two_fasta [any_matrix ''p'' False] 4 12
            = Some [(6, ''p'', 9, 10), (6, ''p'', 10, 11)]"
    using own h2 by (simp add: owner_scores_def region_calls_def)
  have ok1: "matrix_ok two_fasta (any_matrix ''p'' False)" using ok by simp
  show ?thesis
    using regular_two ok1 part own r1 r2 by (intro conjI)
qed

text \<open>
  The claim as stated holds for every buffer. The source takes every \<open>>\<close> byte for
  a header marker, so a \<open>>\<close> byte inside a name is skipped or taken, depending on
  where the regions are cut: scanned as one region, the buffer below has its \<open>>\<close>
  byte at offset 2 passed over; cut at offset 2, the second worker scores the
  sequence that the first worker scores too.
\<close>

theorem nested_marker_breaks_attribution:
  "length nested_fasta = 8 \<and> nested_fasta ! 2 = CHR ''>''
   \<and> \<not> owner_scores (\<lambda>c. c) nested_fasta [any_matrix ''p'' False] [(0, 8)]
   \<and> region_calls (\<lambda>c. c) nested_fasta [any_matrix ''p'' False] 0 2
     = Some [(0, ''p'', 5, 6), (0, ''p'', 6, 7)]
   \<and> region_calls (\<lambda>c. c) nested_fasta [any_matrix ''p'' False] 2 8
     = Some [(2, ''p'', 5, 6), (2, ''p'', 6, 7)]"
  by code_simp

end
